theory Spec2Isabelle
  imports Complex_Main "HOL-Library.Word" "HOL-Library.Multiset"
begin

section \<open>JavaScript strings\<close>

text \<open>
  A JavaScript string is a sequence of UTF-16 code units; \<open>length\<close>, \<open>slice\<close>,
  \<open>padStart\<close> and the regular expression engine (without the \<open>u\<close> flag) all count
  and compare code units. \<open>lit\<close> embeds an ASCII literal of the source.
\<close>

type_synonym code_unit = "16 word"
type_synonym jsstring = "code_unit list"

definition ch :: "char \<Rightarrow> code_unit" where
  "ch c = of_nat (of_char c)"

definition lit :: "string \<Rightarrow> jsstring" where
  "lit s = map ch s"

text \<open>Truthiness of a value of type \<open>string | undefined\<close>: \<open>undefined\<close> and the empty
  string are falsy, every other string is truthy.\<close>

definition truthy :: "jsstring option \<Rightarrow> bool" where
  "truthy v = (case v of None \<Rightarrow> False | Some s \<Rightarrow> s \<noteq> [])"

text \<open>\<open>String.prototype.padStart(targetLength, fillString)\<close>.\<close>

definition padStart :: "nat \<Rightarrow> jsstring \<Rightarrow> jsstring \<Rightarrow> jsstring" where
  "padStart n fill s =
     (if n \<le> length s \<or> fill = [] then s
      else take (n - length s) (concat (replicate (n - length s) fill)) @ s)"

section \<open>formatDuration\<close>

text \<open>
  The pattern is \<^verbatim>\<open>/PT(?:(\d+)H)?(?:(\d+)M)?(?:(\d+)S)?/\<close>, used through
  \<open>String.prototype.match\<close> without the \<open>g\<close> flag: the engine tries the pattern at
  every start position from the left and reports the first position where it matches.

  \<open>\d\<close> is the class \<open>[0-9]\<close>. An optional group \<^verbatim>\<open>(?:(\d+)X)?\<close> is greedy: it
  is taken when the longest run of digits is non-empty and followed by \<open>X\<close> (a shorter
  run is followed by a digit, so backtracking into \<open>\d+\<close> never helps), and skipped
  otherwise; whatever follows the pattern is optional, so the first choice is never
  revised.
\<close>

definition is_digit :: "code_unit \<Rightarrow> bool" where
  "is_digit c = (ch CHR ''0'' \<le> c \<and> c \<le> ch CHR ''9'')"

definition opt_group :: "code_unit \<Rightarrow> jsstring \<Rightarrow> jsstring option \<times> jsstring" where
  "opt_group u s =
     (let ds = takeWhile is_digit s in
      case dropWhile is_digit s of
        [] \<Rightarrow> (None, s)
      | c # rest \<Rightarrow> if ds \<noteq> [] \<and> c = u then (Some ds, rest) else (None, s))"

type_synonym duration_groups = "jsstring option \<times> jsstring option \<times> jsstring option"

fun match_at :: "jsstring \<Rightarrow> duration_groups option" where
  "match_at (p # t # s) =
     (if p = ch CHR ''P'' \<and> t = ch CHR ''T'' then
        (let (h, s1) = opt_group (ch CHR ''H'') s;
             (m, s2) = opt_group (ch CHR ''M'') s1;
             (sec, s3) = opt_group (ch CHR ''S'') s2
         in Some (h, m, sec))
      else None)"
| "match_at _ = None"

fun duration_match :: "jsstring \<Rightarrow> duration_groups option" where
  "duration_match [] = None"
| "duration_match (c # s) =
     (case match_at (c # s) of Some g \<Rightarrow> Some g | None \<Rightarrow> duration_match s)"

definition formatDuration :: "jsstring \<Rightarrow> jsstring" where
  "formatDuration isoDuration =
     (case duration_match isoDuration of
        None \<Rightarrow> isoDuration
      | Some (m1, m2, m3) \<Rightarrow>
          (let hours = (if truthy m1 then the m1 @ lit '':'' else []);
               minutes = (if truthy m2
                          then padStart (if hours \<noteq> [] then 2 else 1) (lit ''0'') (the m2)
                          else lit ''0'');
               seconds = (if truthy m3 then padStart 2 (lit ''0'') (the m3) else lit ''00'')
           in hours @ minutes @ lit '':'' @ seconds))"

text \<open>
  The pattern read as a language, independently of the matcher: the literal \<open>PT\<close>
  followed by an optional hours, an optional minutes and an optional seconds component,
  each a non-empty run of digits and its unit letter. A string matches when some
  substring of it belongs to the language.
\<close>

definition component :: "code_unit \<Rightarrow> jsstring \<Rightarrow> bool" where
  "component u w = (w = [] \<or> (\<exists>d. d \<noteq> [] \<and> list_all is_digit d \<and> w = d @ [u]))"

definition duration_pattern :: "jsstring \<Rightarrow> bool" where
  "duration_pattern w =
     (\<exists>h m s. component (ch CHR ''H'') h \<and> component (ch CHR ''M'') m \<and>
        component (ch CHR ''S'') s \<and> w = lit ''PT'' @ h @ m @ s)"

definition matches_pattern :: "jsstring \<Rightarrow> bool" where
  "matches_pattern s = (\<exists>pre w post. s = pre @ w @ post \<and> duration_pattern w)"

definition contains_PT :: "jsstring \<Rightarrow> bool" where
  "contains_PT s = (\<exists>pre post. s = pre @ lit ''PT'' @ post)"

section \<open>Numbers\<close>

text \<open>
  The counts of a video are non-negative integers below \<open>2\<^sup>5\<^sup>3\<close>, which a JavaScript
  number holds exactly; they are modelled as \<open>nat\<close>. \<open>toString\<close> is
  \<open>Number.prototype.toString\<close> on such a number: its decimal digits.
\<close>

definition MAX_SAFE_INTEGER :: nat where
  "MAX_SAFE_INTEGER = 2 ^ 53 - 1"

definition digit :: "nat \<Rightarrow> code_unit" where
  "digit d = ch CHR ''0'' + of_nat d"

fun toString :: "nat \<Rightarrow> jsstring" where
  "toString n = (if n < 10 then [digit n] else toString (n div 10) @ [digit (n mod 10)])"

declare toString.simps [simp del]

text \<open>
  The quotient \<open>num / 1_000_000\<close> is a binary64 division: the exact quotient rounded
  to the nearest number with a 53-bit significand, ties to the even significand. A
  binary64 value is written as a pair \<open>(m, s)\<close> of a significand and a scale, denoting
  \<open>m / 2\<^sup>s\<close>. The dividend is at least the divisor wherever the program divides and a
  safe integer, so the quotient \<open>q\<close> satisfies \<open>1 \<le> q < 2\<^sup>5\<^sup>3\<close>; its binary exponent
  \<open>k\<close> is that of its integer part, and the significand is \<open>q * 2\<^sup>5\<^sup>2\<^sup>-\<^sup>k\<close> rounded to an
  integer.
\<close>

type_synonym binary64 = "nat \<times> nat"

definition value_of :: "binary64 \<Rightarrow> real" where
  "value_of x = real (fst x) / 2 ^ snd x"

fun ilog2 :: "nat \<Rightarrow> nat" where
  "ilog2 n = (if n < 2 then 0 else Suc (ilog2 (n div 2)))"

declare ilog2.simps [simp del]

definition js_div :: "nat \<Rightarrow> nat \<Rightarrow> binary64" where
  "js_div a b =
     (let s = 52 - ilog2 (a div b);
          m0 = (a * 2 ^ s) div b;
          r = (a * 2 ^ s) mod b;
          m = (if 2 * r < b then m0 else if b < 2 * r then m0 + 1
               else if even m0 then m0 else m0 + 1)
      in (m, s))"

text \<open>
  \<open>Number.prototype.toFixed(1)\<close> on a value \<open>0 \<le> x < 10\<^sup>2\<^sup>1\<close>: the integer \<open>n\<close> for
  which \<open>n / 10 - x\<close> is as close to zero as possible, the larger one when there are
  two (that is \<open>\<lfloor>10 x + 1/2\<rfloor>\<close>), printed with a point before its last digit.
\<close>

definition toFixed1 :: "binary64 \<Rightarrow> jsstring" where
  "toFixed1 x =
     (let n = (20 * fst x + 2 ^ snd x) div 2 ^ (snd x + 1)
      in toString (n div 10) @ lit ''.'' @ toString (n mod 10))"

definition formatNumber :: "nat \<Rightarrow> jsstring" where
  "formatNumber num =
     (if 1000000 \<le> num then toFixed1 (js_div num 1000000) @ lit ''M''
      else if 1000 \<le> num then toFixed1 (js_div num 1000) @ lit ''K''
      else toString num)"

section \<open>Videos, ranking and the report\<close>

text \<open>
  The interface \<open>Video\<close>. The interface declares \<open>title\<close> and \<open>duration\<close> as strings,
  but the object that \<open>getVideoDetails\<close> builds copies them from the response, where
  they may be missing: in a built object they are \<open>string | undefined\<close>. The record
  is parametrised by the type of these two properties. A \<open>Video\<close> has both as
  strings, as the interface says.
\<close>

record 's Video_object =
  id' :: jsstring
  title :: 's
  publishedAt :: jsstring
  viewCount :: nat
  likeCount :: nat
  commentCount :: nat
  duration :: 's
  url :: jsstring

type_synonym Video = "jsstring Video_object"
type_synonym built_video = "jsstring option Video_object"

text \<open>
  \<open>videos.sort((a, b) => b.viewCount - a.viewCount)\<close>. For a comparator that is a
  consistent ordering, as this one is, ECMAScript fixes the result of
  \<open>Array.prototype.sort\<close>: the stable permutation in comparator order. Insertion from
  the right, in front of the first element that does not precede, computes it.
\<close>

definition compareFn :: "'s Video_object \<Rightarrow> 's Video_object \<Rightarrow> int" where
  "compareFn a b = int (viewCount b) - int (viewCount a)"

fun insert_sorted :: "('a \<Rightarrow> 'a \<Rightarrow> int) \<Rightarrow> 'a \<Rightarrow> 'a list \<Rightarrow> 'a list" where
  "insert_sorted cmp x [] = [x]"
| "insert_sorted cmp x (y # ys) =
     (if cmp x y \<le> 0 then x # y # ys else y # insert_sorted cmp x ys)"

definition array_sort :: "('a \<Rightarrow> 'a \<Rightarrow> int) \<Rightarrow> 'a list \<Rightarrow> 'a list" where
  "array_sort cmp xs = foldr (insert_sorted cmp) xs []"

text \<open>\<open>slice(start, end)\<close> of an array or a string, for non-negative indices.\<close>

definition slice :: "nat \<Rightarrow> nat \<Rightarrow> 'a list \<Rightarrow> 'a list" where
  "slice start end xs = drop start (take end xs)"

definition table_title :: "Video \<Rightarrow> jsstring" where
  "table_title video =
     (if 60 < length (title video) then slice 0 57 (title video) @ lit ''...''
      else title video)"

definition table_row :: "nat \<Rightarrow> Video \<Rightarrow> jsstring" where
  "table_row index video =
     lit ''| '' @ toString (index + 1) @ lit '' | '' @ formatNumber (viewCount video)
     @ lit '' | '' @ formatNumber (likeCount video) @ lit '' | ''
     @ formatDuration (duration video) @ lit '' | '' @ table_title video @ lit '' | ''
     @ url video @ lit '' |''"

text \<open>An entry of \<open>jsonOutput\<close>: \<open>{ rank: i + 1, ...v, durationFormatted }\<close>.\<close>

record json_entry =
  rank :: nat
  video :: Video
  durationFormatted :: jsstring

definition jsonOutput :: "Video list \<Rightarrow> json_entry list" where
  "jsonOutput videos =
     map (\<lambda>(i, v). \<lparr>rank = i + 1, video = v, durationFormatted = formatDuration (duration v)\<rparr>)
       (enumerate 0 videos)"

section \<open>The upstream API\<close>

text \<open>
  \<open>await fetch(url)\<close> followed by \<open>await res.json()\<close> is one request: it either
  rejects with an error or yields the parsed body. The body is modelled by the
  properties the program reads. A property that the program guards (\<open>?.\<close>, \<open>||\<close>, a
  truthiness test) or dereferences, there or later, may be absent (\<open>None\<close> is
  \<open>undefined\<close>); dereferencing an absent one throws a \<open>TypeError\<close>. That includes the
  title and the duration of a video, which the table loop dereferences
  (\<open>video.title.length\<close>, \<open>isoDuration.match\<close>). A property whose value the program
  only copies into a string or a list has the type its signatures declare. A statistics count is the
  number its decimal string denotes, which is what \<open>parseInt\<close> returns for it.
\<close>

datatype js_error = Error jsstring | TypeError | SyntaxError

record related_playlists =
  uploads :: jsstring

record content_details =
  cd_relatedPlaylists :: "related_playlists option"
  cd_videoId :: jsstring
  cd_duration :: "jsstring option"

record snippet =
  snippet_title :: "jsstring option"
  snippet_publishedAt :: jsstring

record statistics =
  stat_viewCount :: "nat option"
  stat_likeCount :: "nat option"
  stat_commentCount :: "nat option"

record resource =
  item_id :: jsstring
  item_snippet :: "snippet option"
  item_statistics :: "statistics option"
  item_contentDetails :: "content_details option"

record response =
  data_items :: "resource list option"
  data_nextPageToken :: "jsstring option"

record env =
  API_KEY :: "jsstring option"
  fetch :: "jsstring \<Rightarrow> js_error + response"

text \<open>What the run does to the outside, in order.\<close>

datatype event =
    Fetch jsstring
  | ConsoleError jsstring
  | ConsoleErrorValue js_error
  | ConsoleLog jsstring
  | BunWrite jsstring "json_entry list"

type_synonym 'a io = "event list \<times> (js_error + 'a)"

text \<open>A value of type \<open>string | undefined\<close> inside a template literal.\<close>

definition str :: "jsstring option \<Rightarrow> jsstring" where
  "str v = (case v of None \<Rightarrow> lit ''undefined'' | Some s \<Rightarrow> s)"

definition CHANNEL_HANDLE :: jsstring where
  "CHANNEL_HANDLE = lit ''@aidotengineer''"

subsection \<open>getChannelId and getUploadsPlaylistId\<close>

definition channel_id_url :: "jsstring option \<Rightarrow> jsstring \<Rightarrow> jsstring" where
  "channel_id_url key handle =
     lit ''https://www.googleapis.com/youtube/v3/channels?part=id&forHandle=''
     @ remove1 (ch CHR ''@'') handle @ lit ''&key='' @ str key"

definition getChannelId :: "env \<Rightarrow> jsstring \<Rightarrow> jsstring io" where
  "getChannelId e handle =
     (let url = channel_id_url (API_KEY e) handle in
      case fetch e url of
        Inl err \<Rightarrow> ([Fetch url], Inl err)
      | Inr data \<Rightarrow>
          (case data_items data of
             None \<Rightarrow> ([Fetch url], Inl (Error (lit ''Channel not found: '' @ handle)))
           | Some [] \<Rightarrow> ([Fetch url], Inl (Error (lit ''Channel not found: '' @ handle)))
           | Some (item # _) \<Rightarrow> ([Fetch url], Inr (item_id item))))"

definition uploads_url :: "jsstring option \<Rightarrow> jsstring \<Rightarrow> jsstring" where
  "uploads_url key channelId =
     lit ''https://www.googleapis.com/youtube/v3/channels?part=contentDetails&id=''
     @ channelId @ lit ''&key='' @ str key"

definition getUploadsPlaylistId :: "env \<Rightarrow> jsstring \<Rightarrow> jsstring io" where
  "getUploadsPlaylistId e channelId =
     (let url = uploads_url (API_KEY e) channelId in
      case fetch e url of
        Inl err \<Rightarrow> ([Fetch url], Inl err)
      | Inr data \<Rightarrow>
          (case data_items data of
             None \<Rightarrow> ([Fetch url], Inl TypeError)
           | Some [] \<Rightarrow> ([Fetch url], Inl TypeError)
           | Some (item # _) \<Rightarrow>
               (case item_contentDetails item of
                  None \<Rightarrow> ([Fetch url], Inl TypeError)
                | Some cd \<Rightarrow>
                    (case cd_relatedPlaylists cd of
                       None \<Rightarrow> ([Fetch url], Inl TypeError)
                     | Some rp \<Rightarrow> ([Fetch url], Inr (uploads rp))))))"

subsection \<open>getAllVideoIds\<close>

definition playlist_url :: "jsstring option \<Rightarrow> jsstring \<Rightarrow> jsstring option \<Rightarrow> jsstring" where
  "playlist_url key playlistId pageToken =
     lit ''https://www.googleapis.com/youtube/v3/playlistItems?part=contentDetails&playlistId=''
     @ playlistId @ lit ''&maxResults=50&key='' @ str key
     @ (if truthy pageToken then lit ''&pageToken='' @ str pageToken else [])"

text \<open>The inner loop: \<open>for (const item of data.items || []) videoIds.push(...)\<close>.\<close>

fun push_videoIds :: "jsstring list \<Rightarrow> resource list \<Rightarrow> js_error + jsstring list" where
  "push_videoIds videoIds [] = Inr videoIds"
| "push_videoIds videoIds (item # rest) =
     (case item_contentDetails item of
        None \<Rightarrow> Inl TypeError
      | Some cd \<Rightarrow> push_videoIds (videoIds @ [cd_videoId cd]) rest)"

definition items_or_empty :: "response \<Rightarrow> resource list" where
  "items_or_empty data = (case data_items data of None \<Rightarrow> [] | Some its \<Rightarrow> its)"

definition fetched_ids_message :: "jsstring list \<Rightarrow> jsstring" where
  "fetched_ids_message videoIds =
     lit ''Fetched '' @ toString (length videoIds) @ lit '' video IDs...''"

text \<open>
  The \<open>do ... while (nextPageToken)\<close> loop, with the variables \<open>videoIds\<close> and
  \<open>nextPageToken\<close> and the events so far as its state. Nothing bounds the number of
  rounds: a server that always sends a cursor keeps the loop running, and the result is
  then \<open>None\<close>.
\<close>

partial_function (option) page_loop ::
  "env \<Rightarrow> jsstring \<Rightarrow> jsstring list \<Rightarrow> jsstring option \<Rightarrow> event list \<Rightarrow> (jsstring list) io option"
where
  "page_loop e playlistId videoIds pageToken tr =
     (let url = playlist_url (API_KEY e) playlistId pageToken in
      case fetch e url of
        Inl err \<Rightarrow> Some (tr @ [Fetch url], Inl err)
      | Inr data \<Rightarrow>
          (case push_videoIds videoIds (items_or_empty data) of
             Inl err \<Rightarrow> Some (tr @ [Fetch url], Inl err)
           | Inr videoIds' \<Rightarrow>
               (let tr' = tr @ [Fetch url, ConsoleError (fetched_ids_message videoIds')] in
                if truthy (data_nextPageToken data)
                then page_loop e playlistId videoIds' (data_nextPageToken data) tr'
                else Some (tr', Inr videoIds'))))"

definition getAllVideoIds :: "env \<Rightarrow> jsstring \<Rightarrow> (jsstring list) io option" where
  "getAllVideoIds e playlistId = page_loop e playlistId [] None []"

subsection \<open>getVideoDetails\<close>

text \<open>\<open>Array.prototype.join(separator)\<close> on an array of strings.\<close>

fun join :: "jsstring \<Rightarrow> jsstring list \<Rightarrow> jsstring" where
  "join sep [] = []"
| "join sep [x] = x"
| "join sep (x # y # ys) = x @ sep @ join sep (y # ys)"

definition videos_url :: "jsstring option \<Rightarrow> jsstring list \<Rightarrow> jsstring" where
  "videos_url key batch =
     lit ''https://www.googleapis.com/youtube/v3/videos?part=snippet,statistics,contentDetails&id=''
     @ join (lit '','') batch @ lit ''&key='' @ str key"

definition count_or_0 :: "nat option \<Rightarrow> nat" where
  "count_or_0 v = (case v of None \<Rightarrow> 0 | Some n \<Rightarrow> n)"

definition video_of_item :: "resource \<Rightarrow> js_error + built_video" where
  "video_of_item item =
     (case item_snippet item of
        None \<Rightarrow> Inl TypeError
      | Some sn \<Rightarrow>
          (case item_statistics item of
             None \<Rightarrow> Inl TypeError
           | Some st \<Rightarrow>
               (case item_contentDetails item of
                  None \<Rightarrow> Inl TypeError
                | Some cd \<Rightarrow>
                    Inr \<lparr>id' = item_id item,
                         title = snippet_title sn,
                         publishedAt = snippet_publishedAt sn,
                         viewCount = count_or_0 (stat_viewCount st),
                         likeCount = count_or_0 (stat_likeCount st),
                         commentCount = count_or_0 (stat_commentCount st),
                         duration = cd_duration cd,
                         url = lit ''https://www.youtube.com/watch?v='' @ item_id item\<rparr>)))"

fun push_videos :: "built_video list \<Rightarrow> resource list \<Rightarrow> js_error + built_video list" where
  "push_videos videos [] = Inr videos"
| "push_videos videos (item # rest) =
     (case video_of_item item of
        Inl err \<Rightarrow> Inl err
      | Inr v \<Rightarrow> push_videos (videos @ [v]) rest)"

definition details_message :: "built_video list \<Rightarrow> jsstring list \<Rightarrow> jsstring" where
  "details_message videos videoIds =
     lit ''Fetched details for '' @ toString (length videos) @ lit ''/''
     @ toString (length videoIds) @ lit '' videos...''"

text \<open>The loop \<open>for (let i = 0; i < videoIds.length; i += 50)\<close>.\<close>

function details_loop ::
  "env \<Rightarrow> jsstring list \<Rightarrow> nat \<Rightarrow> built_video list \<Rightarrow> event list \<Rightarrow> (built_video list) io"
where
  "details_loop e videoIds i videos tr =
     (if i < length videoIds then
        (let batch = slice i (i + 50) videoIds;
             url = videos_url (API_KEY e) batch
         in case fetch e url of
              Inl err \<Rightarrow> (tr @ [Fetch url], Inl err)
            | Inr data \<Rightarrow>
                (case push_videos videos (items_or_empty data) of
                   Inl err \<Rightarrow> (tr @ [Fetch url], Inl err)
                 | Inr videos' \<Rightarrow>
                     details_loop e videoIds (i + 50) videos'
                       (tr @ [Fetch url, ConsoleError (details_message videos' videoIds)])))
      else (tr, Inr videos))"
  by pat_completeness auto

termination
  by (relation "measure (\<lambda>(e, videoIds, i, videos, tr). length videoIds - i)") auto

declare details_loop.simps [simp del]

definition getVideoDetails :: "env \<Rightarrow> jsstring list \<Rightarrow> (built_video list) io" where
  "getVideoDetails e videoIds = details_loop e videoIds 0 [] []"

subsection \<open>main\<close>

datatype completion = Returned | Threw js_error | Exited nat

definition usage :: "event list" where
  "usage =
     [ConsoleError (lit ''Error: YOUTUBE_API_KEY environment variable is required''),
      ConsoleError [],
      ConsoleError (lit ''To get an API key:''),
      ConsoleError (lit ''1. Go to https://console.cloud.google.com/apis/credentials''),
      ConsoleError (lit ''2. Create a new project or select existing one''),
      ConsoleError (lit ''3. Enable 'YouTube Data API v3'' @ [ch (CHR 0x27)]),
      ConsoleError (lit ''4. Create an API key''),
      ConsoleError [],
      ConsoleError (lit ''Usage: YOUTUBE_API_KEY=your_key bun run fetch-youtube-videos.ts'')]"

text \<open>
  The output after sorting, for videos that all have their title and their duration:
  the table on standard output, then the file. The event \<open>BunWrite\<close> carries the value
  handed to \<open>JSON.stringify\<close>; writing is taken to succeed.
\<close>

definition report :: "Video list \<Rightarrow> event list" where
  "report videos =
     [ConsoleLog (lit ''\<newline># All Videos from @aidotengineer sorted by popularity\<newline>''),
      ConsoleLog (lit ''Total: '' @ toString (length videos) @ lit '' videos\<newline>''),
      ConsoleLog (lit ''| Rank | Views | Likes | Duration | Title | URL |''),
      ConsoleLog (lit ''|------|-------|-------|----------|-------|-----|'')]
     @ map (\<lambda>(index, video). ConsoleLog (table_row index video)) (enumerate 0 videos)
     @ [BunWrite (lit ''youtube-videos.json'') (jsonOutput videos),
        ConsoleError (lit ''\<newline>\<newline>JSON output saved to youtube-videos.json'')]"

text \<open>The four lines printed before the rows.\<close>

definition heading :: "nat \<Rightarrow> event list" where
  "heading n =
     [ConsoleLog (lit ''\<newline># All Videos from @aidotengineer sorted by popularity\<newline>''),
      ConsoleLog (lit ''Total: '' @ toString n @ lit '' videos\<newline>''),
      ConsoleLog (lit ''| Rank | Views | Likes | Duration | Title | URL |''),
      ConsoleLog (lit ''|------|-------|-------|----------|-------|-----|'')]"

text \<open>
  The loop \<open>videos.forEach((video, index) => ...)\<close> over the built objects. Its callback
  reads \<open>video.title.length\<close> and then, in \<open>formatDuration(video.duration)\<close>,
  \<open>isoDuration.match\<close>: each throws a \<open>TypeError\<close> when the property is \<open>undefined\<close>,
  before anything of the row is printed, and the rows of the videos before stay
  printed. With both properties there the object is a \<open>Video\<close> and its row is printed.
  The loop returns the videos it has printed.
\<close>

definition with_strings :: "built_video \<Rightarrow> jsstring \<Rightarrow> jsstring \<Rightarrow> Video" where
  "with_strings built t d =
     \<lparr>id' = id' built, title = t, publishedAt = publishedAt built,
      viewCount = viewCount built, likeCount = likeCount built,
      commentCount = commentCount built, duration = d, url = url built\<rparr>"

fun forEach_row :: "nat \<Rightarrow> built_video list \<Rightarrow> (Video list) io" where
  "forEach_row index [] = ([], Inr [])"
| "forEach_row index (built # rest) =
     (case title built of
        None \<Rightarrow> ([], Inl TypeError)
      | Some t \<Rightarrow>
          (case duration built of
             None \<Rightarrow> ([], Inl TypeError)
           | Some d \<Rightarrow>
               (case forEach_row (index + 1) rest of
                  (tr, Inl err) \<Rightarrow> (ConsoleLog (table_row index (with_strings built t d)) # tr, Inl err)
                | (tr, Inr vs) \<Rightarrow>
                    (ConsoleLog (table_row index (with_strings built t d)) # tr,
                     Inr (with_strings built t d # vs)))))"

text \<open>
  What follows the loop: \<open>jsonOutput\<close> of the same videos is written to the file.
  \<open>formatDuration(v.duration)\<close> finds a string, the loop having passed.
\<close>

definition saved :: "Video list \<Rightarrow> event list" where
  "saved vs =
     [BunWrite (lit ''youtube-videos.json'') (jsonOutput vs),
      ConsoleError (lit ''\<newline>\<newline>JSON output saved to youtube-videos.json'')]"

definition main :: "env \<Rightarrow> (event list \<times> completion) option" where
  "main e =
     (if \<not> truthy (API_KEY e) then Some (usage, Exited 1)
      else
        (let tr0 = [ConsoleError (lit ''Fetching videos from '' @ CHANNEL_HANDLE @ lit ''...\<newline>'')]
         in case getChannelId e CHANNEL_HANDLE of
              (tr1, Inl err) \<Rightarrow> Some (tr0 @ tr1, Threw err)
            | (tr1, Inr channelId) \<Rightarrow>
                (let tr2 = tr0 @ tr1 @ [ConsoleError (lit ''Channel ID: '' @ channelId)]
                 in case getUploadsPlaylistId e channelId of
                      (tr3, Inl err) \<Rightarrow> Some (tr2 @ tr3, Threw err)
                    | (tr3, Inr uploadsPlaylistId) \<Rightarrow>
                        (let tr4 = tr2 @ tr3 @
                               [ConsoleError (lit ''Uploads Playlist ID: '' @ uploadsPlaylistId
                                  @ lit ''\<newline>'')]
                         in case getAllVideoIds e uploadsPlaylistId of
                              None \<Rightarrow> None
                            | Some (tr5, Inl err) \<Rightarrow> Some (tr4 @ tr5, Threw err)
                            | Some (tr5, Inr videoIds) \<Rightarrow>
                                (let tr6 = tr4 @ tr5 @
                                       [ConsoleError (lit ''\<newline>Total videos found: ''
                                          @ toString (length videoIds) @ lit ''\<newline>'')]
                                 in case getVideoDetails e videoIds of
                                      (tr7, Inl err) \<Rightarrow> Some (tr6 @ tr7, Threw err)
                                    | (tr7, Inr videos) \<Rightarrow>
                                        (let sorted = array_sort compareFn videos;
                                             tr8 = tr6 @ tr7 @ heading (length sorted)
                                         in case forEach_row 0 sorted of
                                              (tr9, Inl err) \<Rightarrow> Some (tr8 @ tr9, Threw err)
                                            | (tr9, Inr vs) \<Rightarrow>
                                                Some (tr8 @ tr9 @ saved vs, Returned)))))))"


section \<open>Notions used to state the properties\<close>

subsection \<open>Durations\<close>

text \<open>The characters of a clock string: digits and the colon.\<close>

definition clock_char :: "code_unit \<Rightarrow> bool" where
  "clock_char c = (is_digit c \<or> c = ch CHR '':'')"

text \<open>The text a group stands for: its digits and its unit letter, or nothing.\<close>

definition group_text :: "jsstring option \<Rightarrow> code_unit \<Rightarrow> jsstring" where
  "group_text g u = (case g of None \<Rightarrow> [] | Some d \<Rightarrow> d @ [u])"

subsection \<open>Numbers\<close>

text \<open>The number a string of decimal digits denotes.\<close>

definition decimal :: "jsstring \<Rightarrow> nat" where
  "decimal s = foldl (\<lambda>v c. 10 * v + unat (c - ch CHR ''0'')) 0 s"

subsection \<open>Ranking\<close>


subsection \<open>Events\<close>

text \<open>The requests of a run, and the files it writes, in order.\<close>

fun fetched :: "event list \<Rightarrow> jsstring list" where
  "fetched [] = []"
| "fetched (Fetch u # tr) = u # fetched tr"
| "fetched (_ # tr) = fetched tr"

fun files_written :: "event list \<Rightarrow> jsstring list" where
  "files_written [] = []"
| "files_written (BunWrite path content # tr) = path # files_written tr"
| "files_written (_ # tr) = files_written tr"

subsection \<open>Built objects as videos\<close>

text \<open>
  A built object read as a \<open>Video\<close>. It is applied to objects that have passed the
  table loop, which have their title and their duration; for the others an absent
  string is read as the empty one.
\<close>

definition strings_of :: "built_video \<Rightarrow> Video" where
  "strings_of built =
     with_strings built (case title built of None \<Rightarrow> [] | Some t \<Rightarrow> t)
       (case duration built of None \<Rightarrow> [] | Some d \<Rightarrow> d)"

subsection \<open>Failing stages\<close>


subsection \<open>Pages\<close>

text \<open>
  A server serves the pages \<open>p\<^sub>1, \<dots>, p\<^sub>n\<close> of a playlist when the first request is
  answered by \<open>p\<^sub>1\<close>, the request with the cursor of \<open>p\<^sub>i\<close> by \<open>p\<^sub>i\<^sub>+\<^sub>1\<close>, every page
  but the last carries a cursor and the last carries none. A cursor is a non-empty
  token: JavaScript treats an empty token like an absent one.
\<close>

fun serves :: "env \<Rightarrow> jsstring \<Rightarrow> jsstring option \<Rightarrow> response list \<Rightarrow> bool" where
  "serves e playlistId pageToken [] = False"
| "serves e playlistId pageToken (p # ps) =
     (fetch e (playlist_url (API_KEY e) playlistId pageToken) = Inr p \<and>
      (if ps = [] then \<not> truthy (data_nextPageToken p)
       else truthy (data_nextPageToken p) \<and> serves e playlistId (data_nextPageToken p) ps))"

definition page_videoIds :: "response \<Rightarrow> jsstring list" where
  "page_videoIds p =
     concat (map (\<lambda>item. case item_contentDetails item of None \<Rightarrow> [] | Some cd \<Rightarrow> [cd_videoId cd])
       (items_or_empty p))"

text \<open>Every item of the page has its \<open>contentDetails\<close>, hence a video identifier.\<close>

definition well_formed_page :: "response \<Rightarrow> bool" where
  "well_formed_page p = list_all (\<lambda>item. item_contentDetails item \<noteq> None) (items_or_empty p)"

subsection \<open>Batches\<close>

text \<open>Consecutive batches of at most 50, as the property states them.\<close>

function batches :: "'a list \<Rightarrow> 'a list list" where
  "batches xs = (if xs = [] then [] else take 50 xs # batches (drop 50 xs))"
  by pat_completeness auto

termination
  by (relation "measure length") auto

declare batches.simps [simp del]

text \<open>
  A catalogue \<open>db\<close> maps an identifier to its detail record, if it has one (a deleted
  or private video has none). The server answers a batch with the records of its
  identifiers that have one, in order; every record is complete.
\<close>

definition answers :: "env \<Rightarrow> (jsstring \<Rightarrow> resource option) \<Rightarrow> jsstring list \<Rightarrow> bool" where
  "answers e db batch =
     (\<exists>r. fetch e (videos_url (API_KEY e) batch) = Inr r
        \<and> data_items r = Some (List.map_filter db batch))"

definition complete_db :: "(jsstring \<Rightarrow> resource option) \<Rightarrow> bool" where
  "complete_db db =
     (\<forall>i item. db i = Some item \<longrightarrow>
        item_id item = i \<and> item_snippet item \<noteq> None \<and> item_statistics item \<noteq> None
        \<and> item_contentDetails item \<noteq> None)"

definition videos_of :: "resource list \<Rightarrow> built_video list" where
  "videos_of its =
     concat (map (\<lambda>item. case video_of_item item of Inl err \<Rightarrow> [] | Inr v \<Rightarrow> [v]) its)"

section \<open>Example inputs\<close>






definition example_key :: "jsstring option" where
  "example_key = Some (lit ''KEY'')"

text \<open>A playlist of three videos on two pages, and a server that always sends a cursor.\<close>

definition playlist_item :: "jsstring \<Rightarrow> resource" where
  "playlist_item v =
     \<lparr>item_id = lit ''UExvYWQ'', item_snippet = None, item_statistics = None,
      item_contentDetails = Some \<lparr>cd_relatedPlaylists = None, cd_videoId = v, cd_duration = None\<rparr>\<rparr>"

definition page1 :: response where
  "page1 = \<lparr>data_items = Some [playlist_item (lit ''vid1''), playlist_item (lit ''vid2'')],
            data_nextPageToken = Some (lit ''CAUQAA'')\<rparr>"

definition page2 :: response where
  "page2 = \<lparr>data_items = Some [playlist_item (lit ''vid3'')], data_nextPageToken = None\<rparr>"

definition paged_env :: env where
  "paged_env =
     \<lparr>API_KEY = example_key,
      fetch = (\<lambda>u.
        if u = playlist_url example_key (lit ''UUuploads'') None then Inr page1
        else if u = playlist_url example_key (lit ''UUuploads'') (Some (lit ''CAUQAA''))
          then Inr page2
        else Inl TypeError)\<rparr>"

definition looping_env :: env where
  "looping_env = \<lparr>API_KEY = example_key, fetch = (\<lambda>u. Inr page1)\<rparr>"

text \<open>120 identifiers \<open>v100, \<dots>, v219\<close>, of which \<open>v107\<close> has no detail record.\<close>

definition example_id :: "nat \<Rightarrow> jsstring" where
  "example_id n = lit ''v'' @ toString n"

definition example_ids :: "jsstring list" where
  "example_ids = map example_id [100..<220]"

definition example_item :: "jsstring \<Rightarrow> resource" where
  "example_item i =
     \<lparr>item_id = i,
      item_snippet = Some \<lparr>snippet_title = Some (lit ''Talk''),
                           snippet_publishedAt = lit ''2023-12-01T00:00:00Z''\<rparr>,
      item_statistics = Some \<lparr>stat_viewCount = Some 1500, stat_likeCount = None,
                              stat_commentCount = Some 3\<rparr>,
      item_contentDetails = Some \<lparr>cd_relatedPlaylists = None, cd_videoId = [],
                                  cd_duration = Some (lit ''PT1H2M10S'')\<rparr>\<rparr>"

definition example_db :: "jsstring \<Rightarrow> resource option" where
  "example_db i = (if i = example_id 107 then None else Some (example_item i))"

definition example_answer :: "jsstring list \<Rightarrow> js_error + response" where
  "example_answer batch =
     Inr \<lparr>data_items = Some (List.map_filter example_db batch), data_nextPageToken = None\<rparr>"

definition details_env :: env where
  "details_env =
     \<lparr>API_KEY = example_key,
      fetch = (\<lambda>u.
        if u = videos_url example_key (map example_id [100..<150])
          then example_answer (map example_id [100..<150])
        else if u = videos_url example_key (map example_id [150..<200])
          then example_answer (map example_id [150..<200])
        else example_answer (map example_id [200..<220]))\<rparr>"




text \<open>
  A server with one channel, whose uploads are the one video \<open>vid3\<close>, given by its
  answers to the uploads lookup, the playlist page and the details batch.
\<close>

definition channel_found :: response where
  "channel_found =
     \<lparr>data_items = Some
        [\<lparr>item_id = lit ''UCchannel'', item_snippet = None, item_statistics = None,
          item_contentDetails = Some
            \<lparr>cd_relatedPlaylists = Some \<lparr>uploads = lit ''UUuploads''\<rparr>,
             cd_videoId = [], cd_duration = None\<rparr>\<rparr>],
      data_nextPageToken = None\<rparr>"

definition channel_bare :: response where
  "channel_bare =
     \<lparr>data_items = Some
        [\<lparr>item_id = lit ''UCchannel'', item_snippet = None, item_statistics = None,
          item_contentDetails = None\<rparr>],
      data_nextPageToken = None\<rparr>"

definition details_of :: "snippet option \<Rightarrow> response" where
  "details_of sn =
     \<lparr>data_items = Some
        [\<lparr>item_id = lit ''vid3'', item_snippet = sn,
          item_statistics = Some \<lparr>stat_viewCount = Some 1500, stat_likeCount = None,
                                  stat_commentCount = Some 3\<rparr>,
          item_contentDetails = Some \<lparr>cd_relatedPlaylists = None, cd_videoId = [],
                                      cd_duration = Some (lit ''PT1H2M10S'')\<rparr>\<rparr>],
      data_nextPageToken = None\<rparr>"

definition untitled :: snippet where
  "untitled = \<lparr>snippet_title = None, snippet_publishedAt = lit ''2023-12-01T00:00:00Z''\<rparr>"

definition staged_env ::
  "js_error + response \<Rightarrow> js_error + response \<Rightarrow> js_error + response \<Rightarrow> env" where
  "staged_env uploads_answer page_answer details_answer =
     \<lparr>API_KEY = example_key,
      fetch = (\<lambda>u.
        if u = channel_id_url example_key CHANNEL_HANDLE then Inr channel_found
        else if u = uploads_url example_key (lit ''UCchannel'') then uploads_answer
        else if u = playlist_url example_key (lit ''UUuploads'') None then page_answer
        else if u = videos_url example_key [lit ''vid3''] then details_answer
        else Inl TypeError)\<rparr>"





definition titled_env :: env where
  "titled_env =
     staged_env (Inr channel_found) (Inr page2)
       (Inr (details_of (Some (untitled\<lparr>snippet_title := Some (lit ''Talk'')\<rparr>))))"

section \<open>Properties of formatDuration\<close>

subsection \<open>When the pattern matches\<close>

lemma match_at_Some_iff:
  "(match_at s \<noteq> None) = (\<exists>rest. s = ch CHR ''P'' # ch CHR ''T'' # rest)"
  by (cases s rule: match_at.cases) (auto split: prod.splits)

lemma contains_PT_Nil: "\<not> contains_PT []"
  by (simp add: contains_PT_def lit_def)

lemma contains_PT_Cons:
  "contains_PT (c # s) = ((\<exists>rest. c # s = ch CHR ''P'' # ch CHR ''T'' # rest) \<or> contains_PT s)"
proof
  assume "contains_PT (c # s)"
  then obtain pre post where eq: "c # s = pre @ lit ''PT'' @ post"
    by (auto simp: contains_PT_def)
  show "(\<exists>rest. c # s = ch CHR ''P'' # ch CHR ''T'' # rest) \<or> contains_PT s"
  proof (cases pre)
    case Nil
    with eq show ?thesis by (simp add: lit_def)
  next
    case (Cons a pre')
    with eq have "s = pre' @ lit ''PT'' @ post" by simp
    then show ?thesis by (auto simp: contains_PT_def)
  qed
next
  assume "(\<exists>rest. c # s = ch CHR ''P'' # ch CHR ''T'' # rest) \<or> contains_PT s"
  then show "contains_PT (c # s)"
  proof
    assume "\<exists>rest. c # s = ch CHR ''P'' # ch CHR ''T'' # rest"
    then obtain rest where "c # s = [] @ lit ''PT'' @ rest" by (auto simp: lit_def)
    then show ?thesis unfolding contains_PT_def by blast
  next
    assume "contains_PT s"
    then obtain pre post where "s = pre @ lit ''PT'' @ post" by (auto simp: contains_PT_def)
    then have "c # s = (c # pre) @ lit ''PT'' @ post" by simp
    then show ?thesis unfolding contains_PT_def by blast
  qed
qed

lemma duration_match_None_iff: "(duration_match s = None) = (\<not> contains_PT s)"
proof (induction s)
  case Nil
  show ?case by (simp add: contains_PT_Nil)
next
  case (Cons c s)
  show ?case
  proof (cases "match_at (c # s)")
    case None
    then have "\<not> (\<exists>rest. c # s = ch CHR ''P'' # ch CHR ''T'' # rest)"
      using match_at_Some_iff [of "c # s"] by simp
    with None Cons show ?thesis by (simp add: contains_PT_Cons)
  next
    case (Some g)
    then have "\<exists>rest. c # s = ch CHR ''P'' # ch CHR ''T'' # rest"
      using match_at_Some_iff [of "c # s"] by simp
    with Some show ?thesis by (simp add: contains_PT_Cons)
  qed
qed

lemma matches_pattern_iff: "matches_pattern s = contains_PT s"
proof
  assume "matches_pattern s"
  then obtain pre w post h m sec where "s = pre @ w @ post" "w = lit ''PT'' @ h @ m @ sec"
    by (auto simp: matches_pattern_def duration_pattern_def)
  then have "s = pre @ lit ''PT'' @ (h @ m @ sec @ post)" by simp
  then show "contains_PT s" unfolding contains_PT_def by blast
next
  assume "contains_PT s"
  then obtain pre post where s: "s = pre @ lit ''PT'' @ post" by (auto simp: contains_PT_def)
  have "duration_pattern (lit ''PT'')"
    unfolding duration_pattern_def component_def by (intro exI [of _ "[]"]) simp
  with s show "matches_pattern s" unfolding matches_pattern_def by blast
qed

lemma no_P_no_PT: "ch CHR ''P'' \<notin> set s \<Longrightarrow> \<not> contains_PT s"
  by (auto simp: contains_PT_def lit_def)

subsection \<open>What a match produces\<close>

text \<open>
  The matcher agrees with the pattern: what it reports is an occurrence of the pattern,
  made of \<open>PT\<close> and the text of the three groups, and no \<open>PT\<close> stands before it.
\<close>

lemma opt_group_sound:
  assumes "opt_group u s = (g, r)"
  shows "s = group_text g u @ r \<and> component u (group_text g u)"
proof (cases g)
  case None
  with assms have "r = s"
    by (auto simp: opt_group_def Let_def split: list.splits if_splits)
  with None show ?thesis by (simp add: group_text_def component_def)
next
  case (Some d)
  with assms obtain c where c: "dropWhile is_digit s = c # r" "d = takeWhile is_digit s"
    "d \<noteq> []" "c = u"
    by (auto simp: opt_group_def Let_def split: list.splits if_splits)
  have "s = takeWhile is_digit s @ dropWhile is_digit s" by simp
  with c have s: "s = d @ [u] @ r" by simp
  from c(2) have "list_all is_digit d" by (auto simp: list_all_iff dest: set_takeWhileD)
  with s c(3) Some show ?thesis by (auto simp: group_text_def component_def)
qed

lemma match_at_sound:
  assumes "match_at s = Some (h, m, sec)"
  shows "\<exists>w post. s = w @ post \<and> duration_pattern w
    \<and> w = lit ''PT'' @ group_text h (ch CHR ''H'') @ group_text m (ch CHR ''M'')
          @ group_text sec (ch CHR ''S'')"
proof -
  from assms obtain rest where s: "s = ch CHR ''P'' # ch CHR ''T'' # rest"
    using match_at_Some_iff [of s] by auto
  obtain s1 where g1: "opt_group (ch CHR ''H'') rest = (h, s1)"
    using assms s by (auto split: prod.splits)
  obtain s2 where g2: "opt_group (ch CHR ''M'') s1 = (m, s2)"
    using assms s g1 by (auto split: prod.splits)
  obtain s3 where g3: "opt_group (ch CHR ''S'') s2 = (sec, s3)"
    using assms s g1 g2 by (auto split: prod.splits)
  note a = opt_group_sound [OF g1] opt_group_sound [OF g2] opt_group_sound [OF g3]
  let ?w = "lit ''PT'' @ group_text h (ch CHR ''H'') @ group_text m (ch CHR ''M'')
          @ group_text sec (ch CHR ''S'')"
  from s a have "s = ?w @ s3" by (simp add: lit_def)
  moreover from a have "duration_pattern ?w" unfolding duration_pattern_def by blast
  ultimately show ?thesis by blast
qed

lemma duration_match_sound:
  "duration_match s = Some (h, m, sec) \<Longrightarrow>
   \<exists>pre w post. s = pre @ w @ post \<and> duration_pattern w \<and> \<not> contains_PT pre
    \<and> w = lit ''PT'' @ group_text h (ch CHR ''H'') @ group_text m (ch CHR ''M'')
          @ group_text sec (ch CHR ''S'')"
proof (induction s)
  case Nil
  then show ?case by simp
next
  case (Cons c s)
  show ?case
  proof (cases "match_at (c # s)")
    case (Some g)
    with Cons.prems have "match_at (c # s) = Some (h, m, sec)" by simp
    from match_at_sound [OF this] obtain w post where "c # s = [] @ w @ post" "duration_pattern w"
      "w = lit ''PT'' @ group_text h (ch CHR ''H'') @ group_text m (ch CHR ''M'')
          @ group_text sec (ch CHR ''S'')" by auto
    moreover have "\<not> contains_PT []"
      by (rule contains_PT_Nil)
    ultimately show ?thesis by blast
  next
    case None
    with Cons.prems have "duration_match s = Some (h, m, sec)" by simp
    from Cons.IH [OF this] obtain pre w post where
      p: "s = pre @ w @ post" "duration_pattern w" "\<not> contains_PT pre"
      "w = lit ''PT'' @ group_text h (ch CHR ''H'') @ group_text m (ch CHR ''M'')
          @ group_text sec (ch CHR ''S'')" by blast
    from None have n: "\<not> (\<exists>rest. c # s = ch CHR ''P'' # ch CHR ''T'' # rest)"
      using match_at_Some_iff [of "c # s"] by simp
    have "\<not> contains_PT (c # pre)"
    proof
      assume "contains_PT (c # pre)"
      then have "(\<exists>rest. c # pre = ch CHR ''P'' # ch CHR ''T'' # rest) \<or> contains_PT pre"
        by (simp only: contains_PT_Cons)
      then show False
      proof
        assume "\<exists>rest. c # pre = ch CHR ''P'' # ch CHR ''T'' # rest"
        with p(1) n show False by auto
      next
        assume "contains_PT pre"
        with p(3) show False by simp
      qed
    qed
    with p have "c # s = (c # pre) @ w @ post \<and> duration_pattern w
        \<and> \<not> contains_PT (c # pre)
        \<and> w = lit ''PT'' @ group_text h (ch CHR ''H'') @ group_text m (ch CHR ''M'')
          @ group_text sec (ch CHR ''S'')" by simp
    then show ?thesis by blast
  qed
qed



lemma opt_group_digits: "opt_group u s = (Some d, r) \<Longrightarrow> list_all is_digit d \<and> d \<noteq> []"
  by (auto simp: opt_group_def Let_def list_all_iff split: list.splits if_splits
      dest: set_takeWhileD)

lemma match_at_digits:
  assumes "match_at s = Some (h, m, sec)"
  shows "(\<forall>d. h = Some d \<longrightarrow> list_all is_digit d) \<and> (\<forall>d. m = Some d \<longrightarrow> list_all is_digit d)
     \<and> (\<forall>d. sec = Some d \<longrightarrow> list_all is_digit d)"
  using assms
  by (cases s rule: match_at.cases) (auto split: prod.splits if_splits dest: opt_group_digits)

lemma duration_match_digits:
  "duration_match s = Some (h, m, sec) \<Longrightarrow>
    (\<forall>d. h = Some d \<longrightarrow> list_all is_digit d) \<and> (\<forall>d. m = Some d \<longrightarrow> list_all is_digit d)
     \<and> (\<forall>d. sec = Some d \<longrightarrow> list_all is_digit d)"
proof (induction s)
  case Nil
  then show ?case by simp
next
  case (Cons c s)
  then show ?case
    by (cases "match_at (c # s)") (auto dest: match_at_digits)
qed

lemma is_digit_0: "is_digit (ch CHR ''0'')"
  by (simp add: is_digit_def ch_def)

lemma padStart_digits:
  "list_all is_digit d \<Longrightarrow> list_all is_digit (padStart n (lit ''0'') d)"
proof -
  assume d: "list_all is_digit d"
  have "x = ch CHR ''0''" if "x \<in> set (take k (concat (replicate k (lit ''0''))))" for k x
    using that set_take_subset [of k "concat (replicate k (lit ''0''))"] by (auto simp: lit_def)
  then have "list_all is_digit (take k (concat (replicate k (lit ''0''))))" for k
    unfolding list_all_iff using is_digit_0 by blast
  with d show ?thesis
    by (simp add: padStart_def)
qed

lemma formatDuration_match_chars:
  assumes "duration_match s = Some g"
  shows "list_all clock_char (formatDuration s)"
proof -
  obtain h m sec where g: "g = (h, m, sec)" by (cases g)
  from assms g have dm: "duration_match s = Some (h, m, sec)" by simp
  note dg = duration_match_digits [OF dm]
  have h: "list_all is_digit (the h)" if "truthy h"
    using that dg by (cases h) (auto simp: truthy_def)
  have m: "list_all is_digit (padStart k (lit ''0'') (the m))" if "truthy m" for k
    using that dg by (cases m) (auto simp: truthy_def intro: padStart_digits)
  have sec: "list_all is_digit (padStart k (lit ''0'') (the sec))" if "truthy sec" for k
    using that dg by (cases sec) (auto simp: truthy_def intro: padStart_digits)
  have dig: "list_all is_digit xs \<Longrightarrow> list_all clock_char xs" for xs
    by (auto simp: list_all_iff clock_char_def)
  have l0: "list_all clock_char (lit ''0'')" "list_all clock_char (lit ''00'')"
    "list_all clock_char (lit '':'')"
    by (simp_all add: lit_def clock_char_def is_digit_0)
  show ?thesis
    using h m sec l0 by (simp add: formatDuration_def dm Let_def dig)
qed

lemma clock_char_not_P: "clock_char c \<Longrightarrow> c \<noteq> ch CHR ''P''"
  by (auto simp: clock_char_def is_digit_def ch_def)

lemmas formatDuration_eval =
  formatDuration_def lit_def ch_def opt_group_def is_digit_def truthy_def padStart_def

text \<open>Strings of the shape of the pattern, and strings of another shape.\<close>

lemma duration_pattern_matches: "duration_pattern s \<Longrightarrow> matches_pattern s"
  unfolding matches_pattern_def
  by (rule exI [of _ "[]"], rule exI [of _ s], rule exI [of _ "[]"]) simp

lemma duration_pattern_chars:
  assumes "duration_pattern w"
  shows "\<exists>rest. w = lit ''PT'' @ rest
    \<and> list_all (\<lambda>c. is_digit c \<or> c = ch CHR ''H'' \<or> c = ch CHR ''M'' \<or> c = ch CHR ''S'') rest"
proof -
  from assms obtain h m s where c: "component (ch CHR ''H'') h" "component (ch CHR ''M'') m"
    "component (ch CHR ''S'') s" and w: "w = lit ''PT'' @ h @ m @ s"
    unfolding duration_pattern_def by blast
  have k: "list_all (\<lambda>c. is_digit c \<or> c = ch CHR ''H'' \<or> c = ch CHR ''M'' \<or> c = ch CHR ''S'') x"
    if "component u x" "u = ch CHR ''H'' \<or> u = ch CHR ''M'' \<or> u = ch CHR ''S''" for u x
    using that unfolding component_def by (auto simp: list_all_iff)
  from c have "list_all (\<lambda>c. is_digit c \<or> c = ch CHR ''H'' \<or> c = ch CHR ''M'' \<or> c = ch CHR ''S'')
      (h @ m @ s)"
    by (simp add: k)
  with w show ?thesis by blast
qed

lemma not_pattern_fraction: "\<not> duration_pattern (lit ''PT1.5S'')"
proof
  assume "duration_pattern (lit ''PT1.5S'')"
  from duration_pattern_chars [OF this] show False
    by (simp add: lit_def ch_def is_digit_def)
qed

lemma not_pattern_embedded: "\<not> duration_pattern (lit ''see PT12H, roughly'')"
proof
  assume "duration_pattern (lit ''see PT12H, roughly'')"
  from duration_pattern_chars [OF this] show False
    by (simp add: lit_def ch_def)
qed

lemma formatDuration_fraction: "formatDuration (lit ''PT1.5S'') = lit ''0:00''"
  by (simp add: formatDuration_eval)

subsection \<open>The claims about formatDuration\<close>

text \<open>
  Claim C1. With the hours component present the result should have the shape
  \<open>H:MM:SS\<close>, minutes and seconds on two digits. The code pads the minutes only when
  the minutes component is present: when it is absent the minutes field is the single
  character \<open>0\<close> whether or not there are hours, so \<open>PT1H5S\<close> (one hour and five
  seconds) is rendered \<open>1:0:05\<close> and \<open>PT1H\<close> is rendered \<open>1:0:00\<close>. With the minutes
  present the field is padded, as \<open>PT1H5M\<close> shows.
\<close>

theorem formatDuration_hours_without_minutes:
  "formatDuration (lit ''PT1H5S'') = lit ''1:0:05''
   \<and> formatDuration (lit ''PT1H'') = lit ''1:0:00''
   \<and> formatDuration (lit ''PT1H5M'') = lit ''1:05:00''"
  by (simp add: formatDuration_eval)

text \<open>
  Claim C6. Formatting a formatted duration changes nothing, for every input string:
  a formatted duration consists of digits and colons, so the pattern does not match it
  again. The three vectors of the claim are as stated.
\<close>

theorem formatDuration_idempotent:
  "formatDuration (formatDuration s) = formatDuration s
   \<and> formatDuration (lit ''PT1H2M10S'') = lit ''1:02:10''
   \<and> formatDuration (lit ''PT45S'') = lit ''0:45''
   \<and> formatDuration (lit ''PT5M'') = lit ''5:00''"
proof -
  have "formatDuration (formatDuration s) = formatDuration s"
  proof (cases "duration_match s")
    case None
    then show ?thesis by (simp add: formatDuration_def)
  next
    case (Some g)
    then have "list_all clock_char (formatDuration s)" by (rule formatDuration_match_chars)
    then have "ch CHR ''P'' \<notin> set (formatDuration s)"
      using clock_char_not_P by (auto simp: list_all_iff)
    then have "duration_match (formatDuration s) = None"
      by (simp add: duration_match_None_iff no_P_no_PT)
    then show ?thesis by (simp add: formatDuration_def [of "formatDuration s"])
  qed
  moreover have "formatDuration (lit ''PT1H2M10S'') = lit ''1:02:10''"
    "formatDuration (lit ''PT45S'') = lit ''0:45''"
    "formatDuration (lit ''PT5M'') = lit ''5:00''"
    by (simp_all add: formatDuration_eval)
  ultimately show ?thesis by simp
qed

text \<open>
  Claim C7, as the code has it. To match is what \<open>String.prototype.match\<close> decides:
  some substring of the input is \<open>PT\<close> followed by an optional hours, an optional
  minutes and an optional seconds component. An input that does not match in this sense
  is returned unmodified, and an input that matches is not: it is replaced by a clock
  string. An input wholly of the shape of the pattern matches.
\<close>

theorem formatDuration_passes_through:
  "(\<not> matches_pattern s \<longrightarrow> formatDuration s = s)
   \<and> (matches_pattern s \<longrightarrow> formatDuration s \<noteq> s \<and> list_all clock_char (formatDuration s))
   \<and> (duration_pattern s \<longrightarrow> matches_pattern s)"
proof (intro conjI impI)
  assume "\<not> matches_pattern s"
  then show "formatDuration s = s"
    by (simp add: formatDuration_def matches_pattern_iff duration_match_None_iff [symmetric])
next
  assume m: "matches_pattern s"
  then obtain g where "duration_match s = Some g"
    using duration_match_None_iff [of s] by (auto simp: matches_pattern_iff)
  then show c: "list_all clock_char (formatDuration s)" by (rule formatDuration_match_chars)
  then have "ch CHR ''P'' \<notin> set (formatDuration s)"
    using clock_char_not_P by (auto simp: list_all_iff)
  then have "\<not> contains_PT (formatDuration s)" by (rule no_P_no_PT)
  with m show "formatDuration s \<noteq> s" by (auto simp: matches_pattern_iff)
next
  assume "duration_pattern s"
  then show "matches_pattern s" by (rule duration_pattern_matches)
qed

theorem formatDuration_passes_through_witness:
  "\<not> matches_pattern (lit ''P3W'') \<and> formatDuration (lit ''P3W'') = lit ''P3W''
   \<and> \<not> matches_pattern (lit ''1:02:10'') \<and> formatDuration (lit ''1:02:10'') = lit ''1:02:10''
   \<and> matches_pattern (lit ''PT1.5S'') \<and> formatDuration (lit ''PT1.5S'') \<noteq> lit ''PT1.5S''
   \<and> duration_pattern (lit ''PT45S'') \<and> matches_pattern (lit ''PT45S'')
   \<and> formatDuration (lit ''PT45S'') \<noteq> lit ''PT45S''"
proof -
  have a: "\<not> matches_pattern (lit ''P3W'')"
    unfolding matches_pattern_iff duration_match_None_iff [symmetric] by (simp add: lit_def ch_def)
  have b: "\<not> matches_pattern (lit ''1:02:10'')"
    unfolding matches_pattern_iff duration_match_None_iff [symmetric] by (simp add: lit_def ch_def)
  have c: "matches_pattern (lit ''PT1.5S'')"
    unfolding matches_pattern_iff contains_PT_def
    by (rule exI [of _ "[]"], rule exI [of _ "lit ''1.5S''"]) (simp add: lit_def)
  have "component (ch CHR ''H'') []" "component (ch CHR ''M'') []"
    "component (ch CHR ''S'') (lit ''45S'')"
    unfolding component_def
    by (simp, simp, rule disjI2, rule exI [of _ "lit ''45''"])
       (simp add: lit_def ch_def is_digit_def)
  then have d: "duration_pattern (lit ''PT45S'')"
    unfolding duration_pattern_def
    by (intro exI [of _ "[]"] exI [of _ "lit ''45S''"]) (simp add: lit_def)
  from a b c d formatDuration_passes_through [of "lit ''P3W''"]
    formatDuration_passes_through [of "lit ''1:02:10''"]
    formatDuration_passes_through [of "lit ''PT1.5S''"]
    formatDuration_passes_through [of "lit ''PT45S''"]
  show ?thesis by simp
qed

text \<open>
  Read of the whole input, the claim fails: \<open>PT1.5S\<close> and \<open>see PT12H, roughly\<close> are
  not of the shape \<open>PT\<close>, hours, minutes, seconds, and are not returned unmodified,
  for each contains a substring that is.
\<close>

theorem formatDuration_other_shape_counterexample:
  "\<not> duration_pattern (lit ''PT1.5S'')
   \<and> formatDuration (lit ''PT1.5S'') = lit ''0:00''
   \<and> lit ''0:00'' \<noteq> lit ''PT1.5S''
   \<and> \<not> duration_pattern (lit ''see PT12H, roughly'')
   \<and> formatDuration (lit ''see PT12H, roughly'') = lit ''12:0:00''
   \<and> lit ''12:0:00'' \<noteq> lit ''see PT12H, roughly''"
proof -
  have "lit ''0:00'' \<noteq> lit ''PT1.5S''" "lit ''12:0:00'' \<noteq> lit ''see PT12H, roughly''"
    by (simp_all add: lit_def)
  moreover have "formatDuration (lit ''see PT12H, roughly'') = lit ''12:0:00''"
    by (simp add: formatDuration_eval)
  ultimately show ?thesis
    using not_pattern_fraction not_pattern_embedded formatDuration_fraction by simp
qed

text \<open>
  Claim C10. The pattern is not anchored and its three components are optional: it
  matches exactly the inputs that contain \<open>PT\<close>. Such an input is replaced by a clock
  string, of digits and colons only, wherever the \<open>PT\<close> stands and whatever surrounds
  it; \<open>PT\<close> alone gives \<open>0:00\<close>. An input without \<open>PT\<close>, such as the day-bearing
  \<open>P1DT2H3M4S\<close>, is returned unchanged.
\<close>

theorem formatDuration_matches_iff_contains_PT:
  "(duration_match s \<noteq> None) = contains_PT s
   \<and> (contains_PT s \<longrightarrow> list_all clock_char (formatDuration s))
   \<and> (\<not> contains_PT s \<longrightarrow> formatDuration s = s)
   \<and> formatDuration (lit ''PT'') = lit ''0:00''
   \<and> formatDuration (lit ''see PT12H, roughly'') = lit ''12:0:00''
   \<and> formatDuration (lit ''P1DT2H3M4S'') = lit ''P1DT2H3M4S''"
proof -
  have a: "(duration_match s \<noteq> None) = contains_PT s"
    by (simp add: duration_match_None_iff)
  have b: "contains_PT s \<longrightarrow> list_all clock_char (formatDuration s)"
    using a formatDuration_match_chars [of s] by auto
  have c: "\<not> contains_PT s \<longrightarrow> formatDuration s = s"
    by (simp add: formatDuration_def duration_match_None_iff [symmetric])
  have d: "formatDuration (lit ''PT'') = lit ''0:00''"
    "formatDuration (lit ''see PT12H, roughly'') = lit ''12:0:00''"
    "formatDuration (lit ''P1DT2H3M4S'') = lit ''P1DT2H3M4S''"
    by (simp_all add: formatDuration_eval)
  from a b c d show ?thesis by simp
qed

theorem formatDuration_matches_iff_contains_PT_witness:
  "contains_PT (lit ''PT'') \<and> list_all clock_char (formatDuration (lit ''PT''))
   \<and> \<not> contains_PT (lit ''P1DT2H3M4S'')
   \<and> formatDuration (lit ''P1DT2H3M4S'') = lit ''P1DT2H3M4S''"
proof -
  have a: "contains_PT (lit ''PT'')"
    using duration_match_None_iff [of "lit ''PT''"] by (simp add: lit_def ch_def opt_group_def)
  have b: "\<not> contains_PT (lit ''P1DT2H3M4S'')"
    unfolding duration_match_None_iff [symmetric] by (simp add: lit_def ch_def)
  from a b formatDuration_matches_iff_contains_PT [of "lit ''PT''"]
    formatDuration_matches_iff_contains_PT [of "lit ''P1DT2H3M4S''"]
  show ?thesis by simp
qed

section \<open>Properties of formatNumber\<close>

subsection \<open>Rounding\<close>

lemma ilog2_le: "0 < n \<Longrightarrow> 2 ^ ilog2 n \<le> n"
proof (induction n rule: ilog2.induct)
  case (1 n)
  show ?case
  proof (cases "n < 2")
    case True
    with 1 show ?thesis by (simp add: ilog2.simps)
  next
    case False
    then have "0 < n div 2" by simp
    with 1 False have "2 ^ ilog2 (n div 2) \<le> n div 2" by simp
    then have "2 * 2 ^ ilog2 (n div 2) \<le> 2 * (n div 2)" by simp
    also have "\<dots> \<le> n" by simp
    finally show ?thesis using False by (simp add: ilog2.simps [of n])
  qed
qed

lemma ilog2_less:
  assumes "0 < n" "n < 2 ^ k"
  shows "ilog2 n < k"
proof -
  from assms(1) have "2 ^ ilog2 n \<le> n" by (rule ilog2_le)
  from this assms(2) have "(2::nat) ^ ilog2 n < 2 ^ k" by (rule le_less_trans)
  then show ?thesis by simp
qed

text \<open>The significand is within one half of the scaled quotient.\<close>

lemma js_div_error:
  assumes "0 < b" "js_div a b = (m, s)"
  shows "2 * m * b \<le> 2 * (a * 2 ^ s) + b \<and> 2 * (a * 2 ^ s) \<le> 2 * m * b + b"
proof -
  define N where "N = a * 2 ^ s"
  define m0 where "m0 = N div b"
  define r where "r = N mod b"
  from assms(2) have s: "s = 52 - ilog2 (a div b)"
    by (simp add: js_div_def Let_def)
  from assms(2) have m: "m = (if 2 * r < b then m0 else if b < 2 * r then m0 + 1
               else if even m0 then m0 else m0 + 1)"
    unfolding js_div_def Let_def r_def m0_def N_def s by auto
  have N: "N = m0 * b + r" by (simp add: m0_def r_def)
  from assms(1) have r: "r < b" by (simp add: r_def)
  have "2 * m * b \<le> 2 * N + b \<and> 2 * N \<le> 2 * m * b + b"
  proof (cases "2 * r < b")
    case True
    with m have "m = m0" by simp
    with N True show ?thesis by (simp add: algebra_simps)
  next
    case False
    show ?thesis
    proof (cases "b < 2 * r")
      case True
      with m False have "m = m0 + 1" by simp
      with N True r show ?thesis by (simp add: algebra_simps)
    next
      case F: False
      with False have "2 * r = b" by simp
      moreover from m have "m = m0 \<or> m = m0 + 1" by (auto split: if_splits)
      ultimately show ?thesis using N by (auto simp: algebra_simps)
    qed
  qed
  then show ?thesis by (simp add: N_def)
qed

text \<open>
  The result of the division is the quotient rounded to 53 significant bits: the
  significand lies between \<open>2\<^sup>5\<^sup>2\<close> and \<open>2\<^sup>5\<^sup>3\<close>, and the value is within half a unit
  in the last place of the quotient.
\<close>

lemma ilog2_upper: "n < 2 ^ Suc (ilog2 n)"
proof (induction n rule: ilog2.induct)
  case (1 n)
  show ?case
  proof (cases "n < 2")
    case True
    then show ?thesis by (simp add: ilog2.simps [of n])
  next
    case False
    with 1 have "n div 2 < 2 ^ Suc (ilog2 (n div 2))" by simp
    then have "n < 2 * 2 ^ Suc (ilog2 (n div 2))" by simp
    with False show ?thesis by (simp add: ilog2.simps [of n])
  qed
qed

lemma js_div_correctly_rounded:
  assumes "0 < b"
  shows "\<bar>value_of (js_div a b) - real a / real b\<bar> \<le> 1 / 2 ^ (snd (js_div a b) + 1)"
proof -
  obtain m s where ms: "js_div a b = (m, s)" by (cases "js_div a b")
  define S :: real where "S = 2 ^ s"
  have S: "0 < S" by (simp add: S_def)
  from assms have b: "0 < real b" by simp
  from js_div_error [OF assms ms]
  have "real (2 * m * b) \<le> real (2 * (a * 2 ^ s) + b)" "real (2 * (a * 2 ^ s)) \<le> real (2 * m * b + b)"
    by (simp_all only: of_nat_le_iff)
  then have "2 * (real m * real b) \<le> 2 * (real a * S) + real b"
    "2 * (real a * S) \<le> 2 * (real m * real b) + real b"
    by (simp_all add: S_def)
  with S have "S * (2 * (real m * real b)) \<le> S * (2 * (real a * S) + real b)"
    "S * (2 * (real a * S)) \<le> S * (2 * (real m * real b) + real b)"
    by (simp_all only: mult_le_cancel_left_pos)
  then have "real m / S - real a / real b \<le> 1 / (2 * S)" "real a / real b - real m / S \<le> 1 / (2 * S)"
    using S b by (simp_all add: field_simps)
  then have "\<bar>real m / S - real a / real b\<bar> \<le> 1 / (2 * S)" by linarith
  then show ?thesis by (simp add: ms value_of_def S_def)
qed

lemma js_div_significand:
  assumes "0 < b" "b \<le> a" "a div b < 2 ^ 53"
  shows "2 ^ 52 \<le> fst (js_div a b) \<and> fst (js_div a b) \<le> 2 ^ 53"
proof -
  define q where "q = a div b"
  define k where "k = ilog2 q"
  define s where "s = 52 - k"
  define N where "N = a * 2 ^ s"
  from assms have q: "0 < q" by (simp add: q_def div_greater_zero_iff)
  then have lo: "2 ^ k \<le> q" unfolding k_def by (rule ilog2_le)
  have hi: "q < 2 ^ Suc k" unfolding k_def by (rule ilog2_upper)
  from lo assms(3) have "(2::nat) ^ k < 2 ^ 53" unfolding q_def by (rule le_less_trans)
  then have k: "k < 53" by (rule power_less_imp_less_exp [of 2, rotated]) simp
  then have ks: "k + s = 52" by (simp add: s_def)
  have "q * b \<le> a" unfolding q_def by simp
  then have A: "q * b * 2 ^ s \<le> N" by (simp add: N_def)
  from lo have "2 ^ k * (b * 2 ^ s) \<le> q * (b * 2 ^ s)" by (rule mult_le_mono1)
  then have "2 ^ k * (b * 2 ^ s) \<le> q * b * 2 ^ s" by (simp only: mult.assoc)
  from this A have "2 ^ k * (b * 2 ^ s) \<le> N" by (rule order_trans)
  then have "2 ^ (k + s) * b \<le> N" by (simp add: power_add ac_simps)
  with ks have "2 ^ 52 * b \<le> N" by simp
  then have "(2 ^ 52 * b) div b \<le> N div b" by (rule div_le_mono)
  with assms(1) have m0_lo: "2 ^ 52 \<le> N div b" by simp
  from assms(1) have "a < (q + 1) * b"
    unfolding q_def using dividend_less_div_times [of b a] by (simp add: algebra_simps)
  moreover from hi have "q + 1 \<le> 2 ^ Suc k" by simp
  then have "(q + 1) * b \<le> 2 ^ Suc k * b" by (rule mult_le_mono1)
  ultimately have "a < 2 ^ Suc k * b" by simp
  then have "a * 2 ^ s < 2 ^ Suc k * b * 2 ^ s" by simp
  then have "N < 2 ^ (Suc k + s) * b" by (simp add: N_def power_add ac_simps)
  with ks have "N < 2 ^ 53 * b" by simp
  then have "N div b < 2 ^ 53" using assms(1) by (simp add: less_mult_imp_div_less)
  then have m0_hi: "N div b + 1 \<le> 2 ^ 53" by simp
  have "fst (js_div a b) = N div b \<or> fst (js_div a b) = N div b + 1"
    by (simp add: js_div_def Let_def N_def s_def k_def q_def)
  with m0_lo m0_hi show ?thesis by auto
qed

lemma toFixed1_floor:
  fixes m s :: nat
  defines "n \<equiv> (20 * m + 2 ^ s) div 2 ^ (s + 1)"
  shows "n * 2 ^ (s + 1) \<le> 20 * m + 2 ^ s \<and> 20 * m + 2 ^ s < (n + 1) * 2 ^ (s + 1)"
proof -
  have pos: "(0::nat) < 2 ^ (s + 1)" by simp
  have "n * 2 ^ (s + 1) \<le> 20 * m + 2 ^ s"
    unfolding n_def by (rule div_times_less_eq_dividend)
  moreover have "20 * m + 2 ^ s < (n + 1) * 2 ^ (s + 1)"
    unfolding n_def using dividend_less_div_times [OF pos, of "20 * m + 2 ^ s"]
    by (simp add: algebra_simps)
  ultimately show ?thesis by simp
qed


lemma even_gap_above:
  fixes k a c :: int
  assumes "even c" "2 * a < k * c"
  shows "2 * a + 2 \<le> k * c"
proof -
  from assms(1) obtain d where d: "c = 2 * d" by (auto elim: evenE)
  with assms(2) have "a < k * d" by simp
  then have "a + 1 \<le> k * d" by simp
  with d show ?thesis by simp
qed

lemma even_gap_below:
  fixes k a c :: int
  assumes "even c" "k * c < 2 * a"
  shows "k * c + 2 \<le> 2 * a"
proof -
  from assms(1) obtain d where d: "c = 2 * d" by (auto elim: evenE)
  with assms(2) have "k * d < a" by simp
  then have "k * d + 1 \<le> a" by simp
  with d show ?thesis by simp
qed

lemma nearest_tenth:
  fixes a c m s n :: nat
  assumes c: "0 < c" "even c" and b: "10 * c < 2 ^ (s + 1)"
    and R: "2 * m * (10 * c) \<le> 2 * (a * 2 ^ s) + 10 * c \<and> 2 * (a * 2 ^ s) \<le> 2 * m * (10 * c) + 10 * c"
    and F: "n * 2 ^ (s + 1) \<le> 20 * m + 2 ^ s \<and> 20 * m + 2 ^ s < (n + 1) * 2 ^ (s + 1)"
  shows "\<bar>real n - real a / real c\<bar> \<le> 1 / 2"
proof -
  define S :: real where "S = 2 ^ s"
  define X :: real where "X = real m / S"
  define y :: real where "y = real a / real c"
  have S: "0 < S" by (simp add: S_def)
  from c have rc: "0 < real c" by simp
  from R have "real (2 * m * (10 * c)) \<le> real (2 * (a * 2 ^ s) + 10 * c)"
    by (simp only: of_nat_le_iff)
  then have "20 * (real m * real c) \<le> 2 * (real a * S) + 10 * real c"
    by (simp add: S_def)
  then have up: "10 * X \<le> y + 5 / S"
    using S rc by (simp add: X_def y_def field_simps)
  from R have "real (2 * (a * 2 ^ s)) \<le> real (2 * m * (10 * c) + 10 * c)"
    by (simp only: of_nat_le_iff)
  then have "2 * (real a * S) \<le> 20 * (real m * real c) + 10 * real c"
    by (simp add: S_def)
  then have lo: "y \<le> 10 * X + 5 / S"
    using S rc by (simp add: X_def y_def field_simps)
  from F have "real (n * 2 ^ (s + 1)) \<le> real (20 * m + 2 ^ s)" by (simp only: of_nat_le_iff)
  then have "real n * (2 * S) \<le> 20 * real m + S"
    by (simp add: S_def)
  then have n_le: "real n \<le> 10 * X + 1 / 2"
    using S by (simp add: X_def field_simps)
  from F have "real (20 * m + 2 ^ s) < real ((n + 1) * 2 ^ (s + 1))" by (simp only: of_nat_less_iff)
  then have "20 * real m + S < (real n + 1) * (2 * S)"
    by (simp add: S_def algebra_simps)
  then have n_gt: "10 * X + 1 / 2 < real n + 1"
    using S by (simp add: X_def field_simps)
  from b have "real (10 * c) < real (2 ^ (s + 1))" by (simp only: of_nat_less_iff)
  then have "10 * real c < 2 * S" by (simp add: S_def)
  then have eps: "5 / S < 1 / real c" using S rc by (simp add: field_simps)
  from c(2) have ec: "even (int c)" by simp
  have above: "y + 1 / real c \<le> real n - 1 / 2" if "y < real n - 1 / 2"
  proof -
    from that rc have "2 * real a < (2 * real n - 1) * real c"
      by (simp add: y_def field_simps)
    then have "real_of_int (2 * int a) < real_of_int ((2 * int n - 1) * int c)" by simp
    then have "2 * int a < (2 * int n - 1) * int c" by (simp only: of_int_less_iff)
    from even_gap_above [OF ec this] have "real_of_int (2 * int a + 2) \<le> real_of_int ((2 * int n - 1) * int c)"
      by (simp only: of_int_le_iff)
    then have "2 * real a + 2 \<le> (2 * real n - 1) * real c" by simp
    with rc show ?thesis by (simp add: y_def field_simps)
  qed
  have below: "real n + 1 / 2 \<le> y - 1 / real c" if "real n + 1 / 2 < y"
  proof -
    from that rc have "(2 * real n + 1) * real c < 2 * real a"
      by (simp add: y_def field_simps)
    then have "real_of_int ((2 * int n + 1) * int c) < real_of_int (2 * int a)" by simp
    then have "(2 * int n + 1) * int c < 2 * int a" by (simp only: of_int_less_iff)
    from even_gap_below [OF ec this] have "real_of_int ((2 * int n + 1) * int c + 2) \<le> real_of_int (2 * int a)"
      by (simp only: of_int_le_iff)
    then have "(2 * real n + 1) * real c + 2 \<le> 2 * real a" by simp
    with rc show ?thesis by (simp add: y_def field_simps)
  qed
  have "real n - y \<le> 1 / 2"
  proof (rule ccontr)
    assume "\<not> real n - y \<le> 1 / 2"
    then have "y < real n - 1 / 2" by simp
    from above [OF this] n_le up eps show False by linarith
  qed
  moreover have "y - real n \<le> 1 / 2"
  proof (rule ccontr)
    assume "\<not> y - real n \<le> 1 / 2"
    then have "real n + 1 / 2 < y" by simp
    from below [OF this] n_gt lo eps show False by linarith
  qed
  ultimately have "\<bar>real n - y\<bar> \<le> 1 / 2" by linarith
  then show ?thesis by (simp only: y_def)
qed


lemma toFixed1_js_div:
  fixes a c :: nat
  assumes c: "0 < c" "even c" and a: "10 * c \<le> a" and k: "a div (10 * c) < 2 ^ k" "k \<le> 52"
    and small: "10 * c < 2 ^ (54 - k)"
  shows "\<exists>n. toFixed1 (js_div a (10 * c)) = toString (n div 10) @ lit ''.'' @ toString (n mod 10)
     \<and> \<bar>real n / 10 - real a / real (10 * c)\<bar> \<le> 1 / 20"
proof -
  obtain m s where ms: "js_div a (10 * c) = (m, s)" by (cases "js_div a (10 * c)")
  then have s: "s = 52 - ilog2 (a div (10 * c))" by (simp add: js_div_def Let_def)
  from c a have "0 < a div (10 * c)" by (simp add: div_greater_zero_iff)
  from ilog2_less [OF this k(1)] k(2) s have "54 - k \<le> s + 1" by simp
  then have "(2::nat) ^ (54 - k) \<le> 2 ^ (s + 1)" by (simp only: power_increasing_iff)
  with small have b: "10 * c < 2 ^ (s + 1)" by simp
  define n where "n = (20 * m + 2 ^ s) div 2 ^ (s + 1)"
  from c have "0 < 10 * c" by simp
  from js_div_error [OF this ms]
  have R: "2 * m * (10 * c) \<le> 2 * (a * 2 ^ s) + 10 * c \<and> 2 * (a * 2 ^ s) \<le> 2 * m * (10 * c) + 10 * c" .
  have F: "n * 2 ^ (s + 1) \<le> 20 * m + 2 ^ s \<and> 20 * m + 2 ^ s < (n + 1) * 2 ^ (s + 1)"
    unfolding n_def by (rule toFixed1_floor)
  from nearest_tenth [OF c b R F] have "\<bar>real n - real a / real c\<bar> \<le> 1 / 2" .
  then have "\<bar>real n / 10 - real a / real (10 * c)\<bar> \<le> 1 / 20"
    using c by (simp add: field_simps abs_le_iff)
  moreover have "toFixed1 (js_div a (10 * c)) = toString (n div 10) @ lit ''.'' @ toString (n mod 10)"
    by (simp add: ms toFixed1_def n_def Let_def)
  ultimately show ?thesis by blast
qed

lemma unat_digit: "d < 10 \<Longrightarrow> unat (digit d - ch CHR ''0'') = d"
  by (simp add: digit_def unat_of_nat)

lemma decimal_snoc: "decimal (s @ [c]) = 10 * decimal s + unat (c - ch CHR ''0'')"
  by (simp add: decimal_def)

lemma decimal_toString: "decimal (toString n) = n"
proof (induction n rule: toString.induct)
  case (1 n)
  show ?case
  proof (cases "n < 10")
    case True
    then show ?thesis by (simp add: toString.simps [of n] decimal_def unat_digit)
  next
    case False
    with 1 show ?thesis
      by (simp add: toString.simps [of n] decimal_snoc unat_digit)
  qed
qed

lemma is_digit_digit: "d < 10 \<Longrightarrow> is_digit (digit d)"
proof -
  assume "d < 10"
  then have "d \<in> {0, 1, 2, 3, 4, 5, 6, 7, 8, 9}" by auto
  then show ?thesis by (auto simp: is_digit_def digit_def ch_def)
qed

lemma digits_toString: "list_all is_digit (toString n)"
proof (induction n rule: toString.induct)
  case (1 n)
  show ?case
  proof (cases "n < 10")
    case True
    then show ?thesis by (simp add: toString.simps [of n] is_digit_digit)
  next
    case False
    with 1 show ?thesis by (simp add: toString.simps [of n] is_digit_digit)
  qed
qed

lemma formatNumber_999: "formatNumber 999 = lit ''999''"
  by (simp add: formatNumber_def toString.simps lit_def digit_def ch_def)

lemma js_div_1500: "js_div 1500 1000 = (6755399441055744, 52)"
  by (simp add: js_div_def ilog2.simps Let_def)

lemma js_div_2300000: "js_div 2300000 1000000 = (5179139571476070, 51)"
  by (simp add: js_div_def ilog2.simps Let_def)

lemma formatNumber_1500: "formatNumber 1500 = lit ''1.5K''"
  by (simp add: formatNumber_def js_div_1500) (simp add: toFixed1_def toString.simps lit_def digit_def ch_def)

lemma formatNumber_2300000: "formatNumber 2300000 = lit ''2.3M''"
  by (simp add: formatNumber_def js_div_2300000) (simp add: toFixed1_def toString.simps lit_def digit_def ch_def)


text \<open>
  A count exactly between two tenths goes where its binary quotient lies: \<open>1.15\<close> is
  stored a little below, \<open>1.25\<close> is stored exactly and goes up.
\<close>

lemma js_div_1150000: "js_div 1150000 1000000 = (5179139571476070, 52)"
  by (simp add: js_div_def ilog2.simps Let_def)

lemma js_div_1250000: "js_div 1250000 1000000 = (5629499534213120, 52)"
  by (simp add: js_div_def ilog2.simps Let_def)

lemma formatNumber_halfway:
  "formatNumber 1150000 = lit ''1.1M'' \<and> formatNumber 1250000 = lit ''1.3M''"
  by (simp add: formatNumber_def js_div_1150000 js_div_1250000)
     (simp add: toFixed1_def toString.simps lit_def digit_def ch_def)

subsection \<open>The claim about formatNumber\<close>

text \<open>
  Claim C8. For a count \<open>num\<close> (a non-negative integer that a JavaScript number holds
  exactly): from a million on the result is a decimal with one place followed by \<open>M\<close>,
  and the decimal is \<open>num / 1000000\<close> rounded to a nearest tenth; from a thousand on
  it is \<open>num / 1000\<close> rounded to a nearest tenth, followed by \<open>K\<close>; below a thousand
  it is the decimal digits of \<open>num\<close>. The binary quotient decides which tenth is
  taken when \<open>num\<close> lies exactly between two. The three vectors are as stated.
\<close>

theorem formatNumber_abbreviates:
  assumes "num \<le> MAX_SAFE_INTEGER"
  shows "(1000000 \<le> num \<longrightarrow>
           (\<exists>n. formatNumber num = toString (n div 10) @ lit ''.'' @ toString (n mod 10) @ lit ''M''
              \<and> \<bar>real n / 10 - real num / 1000000\<bar> \<le> 1 / 20))
       \<and> (1000 \<le> num \<and> num < 1000000 \<longrightarrow>
           (\<exists>n. formatNumber num = toString (n div 10) @ lit ''.'' @ toString (n mod 10) @ lit ''K''
              \<and> \<bar>real n / 10 - real num / 1000\<bar> \<le> 1 / 20))
       \<and> (num < 1000 \<longrightarrow> formatNumber num = toString num)
       \<and> decimal (toString num) = num \<and> list_all is_digit (toString num)
       \<and> formatNumber 999 = lit ''999'' \<and> formatNumber 1500 = lit ''1.5K''
       \<and> formatNumber 2300000 = lit ''2.3M''"
proof -
  have M: "\<exists>n. formatNumber num = toString (n div 10) @ lit ''.'' @ toString (n mod 10) @ lit ''M''
              \<and> \<bar>real n / 10 - real num / 1000000\<bar> \<le> 1 / 20" if "1000000 \<le> num"
  proof -
    from assms have "num div 1000000 \<le> (2 ^ 53 - 1) div 1000000"
      unfolding MAX_SAFE_INTEGER_def by (rule div_le_mono)
    then have "num div (10 * 100000) < 2 ^ 34" by simp
    moreover from that have "10 * 100000 \<le> num" by simp
    ultimately have "\<exists>n. toFixed1 (js_div num (10 * 100000))
          = toString (n div 10) @ lit ''.'' @ toString (n mod 10)
       \<and> \<bar>real n / 10 - real num / real (10 * 100000 :: nat)\<bar> \<le> 1 / 20"
      by (intro toFixed1_js_div [where k = 34]) simp_all
    with that show ?thesis by (simp add: formatNumber_def)
  qed
  have K: "\<exists>n. formatNumber num = toString (n div 10) @ lit ''.'' @ toString (n mod 10) @ lit ''K''
              \<and> \<bar>real n / 10 - real num / 1000\<bar> \<le> 1 / 20" if "1000 \<le> num" "num < 1000000"
  proof -
    from that(2) have "num div (10 * 100) < 2 ^ 10" by simp
    moreover from that have "10 * 100 \<le> num" by simp
    ultimately have "\<exists>n. toFixed1 (js_div num (10 * 100))
          = toString (n div 10) @ lit ''.'' @ toString (n mod 10)
       \<and> \<bar>real n / 10 - real num / real (10 * 100 :: nat)\<bar> \<le> 1 / 20"
      by (intro toFixed1_js_div [where k = 10]) simp_all
    with that show ?thesis by (simp add: formatNumber_def)
  qed
  have P: "num < 1000 \<longrightarrow> formatNumber num = toString num"
    by (simp add: formatNumber_def)
  from M K P show ?thesis
    by (simp add: decimal_toString digits_toString formatNumber_999 formatNumber_1500
        formatNumber_2300000)
qed

theorem formatNumber_abbreviates_witness:
  "(2300000::nat) \<le> MAX_SAFE_INTEGER \<and> (1000000::nat) \<le> 2300000
   \<and> formatNumber 2300000 = lit ''2.3M''
   \<and> (1500::nat) \<le> MAX_SAFE_INTEGER \<and> (1000::nat) \<le> 1500 \<and> (1500::nat) < 1000000
   \<and> formatNumber 1500 = lit ''1.5K''
   \<and> (999::nat) \<le> MAX_SAFE_INTEGER \<and> (999::nat) < 1000
   \<and> formatNumber 999 = toString 999 \<and> decimal (toString 999) = 999"
proof -
  have a: "(2300000::nat) \<le> MAX_SAFE_INTEGER" "(1500::nat) \<le> MAX_SAFE_INTEGER"
    "(999::nat) \<le> MAX_SAFE_INTEGER"
    by (simp_all add: MAX_SAFE_INTEGER_def)
  from a formatNumber_abbreviates [of 2300000] formatNumber_abbreviates [of 1500]
    formatNumber_abbreviates [of 999]
  show ?thesis by simp
qed

section \<open>Properties of the ranking and the report\<close>

subsection \<open>Sorting\<close>

lemma mset_insert_sorted: "mset (insert_sorted cmp x ys) = add_mset x (mset ys)"
  by (induction ys) auto

lemma mset_array_sort: "mset (array_sort cmp xs) = mset xs"
  unfolding array_sort_def by (induction xs) (auto simp: mset_insert_sorted)

lemma length_array_sort: "length (array_sort cmp xs) = length xs"
  using mset_array_sort [of cmp xs] by (metis size_mset)






text \<open>Videos with the same view count keep their relative order: the sort is stable.\<close>

lemma filter_insert_sorted:
  "filter (\<lambda>v. viewCount v = k) (insert_sorted compareFn x ys)
     = (if viewCount x = k then x # filter (\<lambda>v. viewCount v = k) ys
        else filter (\<lambda>v. viewCount v = k) ys)"
  by (induction ys) (auto simp: compareFn_def)

lemma array_sort_stable:
  "filter (\<lambda>v. viewCount v = k) (array_sort compareFn xs) = filter (\<lambda>v. viewCount v = k) xs"
  unfolding array_sort_def by (induction xs) (simp_all add: filter_insert_sorted)

subsection \<open>The claim about ranks\<close>




subsection \<open>The claim about titles\<close>




section \<open>Properties of getAllVideoIds\<close>

subsection \<open>The paging loop\<close>

lemma fetched_append: "fetched (xs @ ys) = fetched xs @ fetched ys"
  by (induction xs rule: fetched.induct) auto

lemma push_videoIds_well_formed:
  "list_all (\<lambda>item. item_contentDetails item \<noteq> None) its \<Longrightarrow>
   push_videoIds acc its =
     Inr (acc @ concat (map (\<lambda>item. case item_contentDetails item of None \<Rightarrow> []
                                     | Some cd \<Rightarrow> [cd_videoId cd]) its))"
  by (induction its arbitrary: acc) auto

lemma page_loop_serves:
  "serves e pid tok pages \<Longrightarrow> list_all well_formed_page pages \<Longrightarrow>
   \<exists>tr'. page_loop e pid acc tok tr = Some (tr @ tr', Inr (acc @ concat (map page_videoIds pages)))
      \<and> fetched tr' = map (playlist_url (API_KEY e) pid) (tok # map data_nextPageToken (butlast pages))"
proof (induction pages arbitrary: acc tok tr)
  case Nil
  then show ?case by simp
next
  case (Cons p ps)
  let ?url = "playlist_url (API_KEY e) pid tok"
  let ?acc = "acc @ page_videoIds p"
  let ?tr = "tr @ [Fetch ?url, ConsoleError (fetched_ids_message ?acc)]"
  from Cons.prems have f: "fetch e ?url = Inr p" by simp
  from Cons.prems have "well_formed_page p" by simp
  then have push: "push_videoIds acc (items_or_empty p) = Inr ?acc"
    unfolding well_formed_page_def page_videoIds_def by (rule push_videoIds_well_formed)
  show ?case
  proof (cases "ps = []")
    case True
    with Cons.prems have "\<not> truthy (data_nextPageToken p)" by simp
    with f push have "page_loop e pid acc tok tr = Some (?tr, Inr ?acc)"
      by (subst page_loop.simps) (simp add: Let_def)
    with True show ?thesis by simp
  next
    case False
    with Cons.prems have t: "truthy (data_nextPageToken p)"
      and s: "serves e pid (data_nextPageToken p) ps" by simp_all
    from Cons.prems have w: "list_all well_formed_page ps" by simp
    from Cons.IH [OF s w, of ?acc ?tr] obtain tr' where
      r: "page_loop e pid ?acc (data_nextPageToken p) ?tr
            = Some (?tr @ tr', Inr (?acc @ concat (map page_videoIds ps)))"
      and u: "fetched tr' = map (playlist_url (API_KEY e) pid)
                (data_nextPageToken p # map data_nextPageToken (butlast ps))"
      by blast
    from f push t r have "page_loop e pid acc tok tr
        = Some (?tr @ tr', Inr (?acc @ concat (map page_videoIds ps)))"
      by (subst page_loop.simps) (simp add: Let_def)
    with u False show ?thesis
      by (intro exI [of _ "[Fetch ?url, ConsoleError (fetched_ids_message ?acc)] @ tr'"])
         (simp add: fetched_append)
  qed
qed

lemma page_loop_forever:
  assumes "\<forall>u. \<exists>p. fetch e u = Inr p \<and> truthy (data_nextPageToken p) \<and> well_formed_page p"
  shows "page_loop e pid acc tok tr = None"
proof (rule ccontr)
  assume "page_loop e pid acc tok tr \<noteq> None"
  then obtain y where y: "page_loop e pid acc tok tr = Some y" by blast
  have "\<not> (\<forall>u. \<exists>p. fetch e u = Inr p \<and> truthy (data_nextPageToken p) \<and> well_formed_page p)"
  proof (rule page_loop.raw_induct
      [where P = "\<lambda>e pid acc tok tr y.
         \<not> (\<forall>u. \<exists>p. fetch e u = Inr p \<and> truthy (data_nextPageToken p) \<and> well_formed_page p)",
       OF _ y])
    fix f :: "env \<Rightarrow> jsstring \<Rightarrow> jsstring list \<Rightarrow> jsstring option \<Rightarrow> event list
      \<Rightarrow> (jsstring list) io option"
    fix e pid acc tok tr y
    assume IH: "\<And>e' pid' acc' tok' tr' y'. f e' pid' acc' tok' tr' = Some y' \<Longrightarrow>
      \<not> (\<forall>u. \<exists>p. fetch e' u = Inr p \<and> truthy (data_nextPageToken p) \<and> well_formed_page p)"
    assume step: "(let url = playlist_url (API_KEY e) pid tok in
      case fetch e url of
        Inl err \<Rightarrow> Some (tr @ [Fetch url], Inl err)
      | Inr data \<Rightarrow>
          (case push_videoIds acc (items_or_empty data) of
             Inl err \<Rightarrow> Some (tr @ [Fetch url], Inl err)
           | Inr videoIds' \<Rightarrow>
               (let tr' = tr @ [Fetch url, ConsoleError (fetched_ids_message videoIds')] in
                if truthy (data_nextPageToken data)
                then f e pid videoIds' (data_nextPageToken data) tr'
                else Some (tr', Inr videoIds')))) = Some y"
    show "\<not> (\<forall>u. \<exists>p. fetch e u = Inr p \<and> truthy (data_nextPageToken p) \<and> well_formed_page p)"
    proof
      assume a: "\<forall>u. \<exists>p. fetch e u = Inr p \<and> truthy (data_nextPageToken p) \<and> well_formed_page p"
      then obtain p where p: "fetch e (playlist_url (API_KEY e) pid tok) = Inr p"
        "truthy (data_nextPageToken p)" "well_formed_page p" by blast
      from p(3) have "push_videoIds acc (items_or_empty p) = Inr (acc @ page_videoIds p)"
        unfolding well_formed_page_def page_videoIds_def by (rule push_videoIds_well_formed)
      with p step obtain acc' tr' where "f e pid acc' (data_nextPageToken p) tr' = Some y"
        by (simp add: Let_def)
      from IH [OF this] a show False by blast
    qed
  qed
  with assms show False by blast
qed

subsection \<open>The claim about pagination\<close>

text \<open>
  Claim C3. When the server serves a finite sequence of pages of which exactly the last
  carries no cursor, \<open>getAllVideoIds\<close> returns, and what it returns is the
  concatenation of the pages' video identifiers, page by page and in the order within
  each page; it sends one request per page, the first without a cursor and each
  further one with the cursor of the page before. Nothing but a page without a cursor
  ends the loop: against a server that sends a cursor with every page it does not
  return.
\<close>

theorem getAllVideoIds_collects_all_pages:
  "(serves e playlistId None pages \<and> list_all well_formed_page pages \<longrightarrow>
      (\<exists>tr. getAllVideoIds e playlistId = Some (tr, Inr (concat (map page_videoIds pages)))
         \<and> fetched tr = map (playlist_url (API_KEY e) playlistId)
                           (None # map data_nextPageToken (butlast pages))
         \<and> length (fetched tr) = length pages))
   \<and> ((\<forall>u. \<exists>p. fetch e u = Inr p \<and> truthy (data_nextPageToken p) \<and> well_formed_page p) \<longrightarrow>
      getAllVideoIds e playlistId = None)"
proof (intro conjI impI)
  assume "serves e playlistId None pages \<and> list_all well_formed_page pages"
  then have s: "serves e playlistId None pages" and w: "list_all well_formed_page pages" by simp_all
  from s have ne: "pages \<noteq> []" by (cases pages) simp_all
  from page_loop_serves [OF s w, of "[]" "[]"] obtain tr where
    r: "getAllVideoIds e playlistId = Some (tr, Inr (concat (map page_videoIds pages)))"
    and f: "fetched tr = map (playlist_url (API_KEY e) playlistId)
                           (None # map data_nextPageToken (butlast pages))"
    by (auto simp: getAllVideoIds_def)
  from f ne have "length (fetched tr) = length pages" by simp
  with r f show "\<exists>tr. getAllVideoIds e playlistId = Some (tr, Inr (concat (map page_videoIds pages)))
         \<and> fetched tr = map (playlist_url (API_KEY e) playlistId)
                           (None # map data_nextPageToken (butlast pages))
         \<and> length (fetched tr) = length pages"
    by blast
next
  assume "\<forall>u. \<exists>p. fetch e u = Inr p \<and> truthy (data_nextPageToken p) \<and> well_formed_page p"
  then show "getAllVideoIds e playlistId = None"
    unfolding getAllVideoIds_def by (rule page_loop_forever)
qed

lemma paged_env_serves: "serves paged_env (lit ''UUuploads'') None [page1, page2]"
  by (simp add: paged_env_def page1_def page2_def truthy_def playlist_url_def example_key_def
      str_def lit_def)

lemma example_pages_well_formed: "list_all well_formed_page [page1, page2]"
  by (simp add: well_formed_page_def page1_def page2_def items_or_empty_def playlist_item_def)

lemma looping_env_always_cursor:
  "\<forall>u. \<exists>p. fetch looping_env u = Inr p \<and> truthy (data_nextPageToken p) \<and> well_formed_page p"
  by (simp add: looping_env_def well_formed_page_def page1_def items_or_empty_def playlist_item_def
      truthy_def lit_def)

theorem getAllVideoIds_collects_all_pages_witness:
  "serves paged_env (lit ''UUuploads'') None [page1, page2]
   \<and> list_all well_formed_page [page1, page2]
   \<and> map_option snd (getAllVideoIds paged_env (lit ''UUuploads''))
       = Some (Inr [lit ''vid1'', lit ''vid2'', lit ''vid3''])
   \<and> map_option (length \<circ> fetched \<circ> fst) (getAllVideoIds paged_env (lit ''UUuploads'')) = Some 2
   \<and> getAllVideoIds looping_env (lit ''UUuploads'') = None"
proof -
  have ids: "concat (map page_videoIds [page1, page2]) = [lit ''vid1'', lit ''vid2'', lit ''vid3'']"
    by (simp add: page_videoIds_def page1_def page2_def items_or_empty_def playlist_item_def)
  from getAllVideoIds_collects_all_pages [of paged_env "lit ''UUuploads''" "[page1, page2]"]
    paged_env_serves example_pages_well_formed
  obtain tr where "getAllVideoIds paged_env (lit ''UUuploads'')
      = Some (tr, Inr (concat (map page_videoIds [page1, page2])))"
    "length (fetched tr) = length [page1, page2]" by blast
  then have "getAllVideoIds paged_env (lit ''UUuploads'')
      = Some (tr, Inr [lit ''vid1'', lit ''vid2'', lit ''vid3''])" "length (fetched tr) = 2"
    by (simp_all only: ids) simp
  then have "map_option snd (getAllVideoIds paged_env (lit ''UUuploads''))
       = Some (Inr [lit ''vid1'', lit ''vid2'', lit ''vid3''])"
    "map_option (length \<circ> fetched \<circ> fst) (getAllVideoIds paged_env (lit ''UUuploads'')) = Some 2"
    by simp_all
  moreover from getAllVideoIds_collects_all_pages [of looping_env "lit ''UUuploads''" "[]"]
    looping_env_always_cursor
  have "getAllVideoIds looping_env (lit ''UUuploads'') = None" by blast
  ultimately show ?thesis
    using paged_env_serves example_pages_well_formed by blast
qed

section \<open>Properties of getVideoDetails\<close>

subsection \<open>Batches\<close>

lemma batches_Nil: "batches [] = []"
  by (simp add: batches.simps)

lemma batches_Cons: "xs \<noteq> [] \<Longrightarrow> batches xs = take 50 xs # batches (drop 50 xs)"
  by (subst batches.simps) simp

lemma concat_batches: "concat (batches xs) = xs"
proof (induction xs rule: batches.induct)
  case (1 xs)
  show ?case
  proof (cases "xs = []")
    case True
    then show ?thesis by (simp add: batches_Nil)
  next
    case False
    with 1 show ?thesis by (simp add: batches_Cons [OF False])
  qed
qed

lemma batch_count_step:
  assumes "0 < (n::nat)"
  shows "Suc ((n - 50 + 49) div 50) = (n + 49) div 50"
proof (cases "50 \<le> n")
  case True
  then have "n + 49 = (n - 50 + 49) + 50" by simp
  then have "(n + 49) div 50 = ((n - 50 + 49) + 50) div 50" by simp
  also have "\<dots> = Suc ((n - 50 + 49) div 50)" by (simp only: div_add_self2)
  finally show ?thesis by simp
next
  case False
  with assms have "(n + 49) div 50 = 1"
    by (simp add: div_eq_dividend_iff Euclidean_Rings.div_nat_eqI)
  with False show ?thesis by simp
qed

lemma length_batches: "length (batches xs) = (length xs + 49) div 50"
proof (induction xs rule: batches.induct)
  case (1 xs)
  show ?case
  proof (cases "xs = []")
    case True
    then show ?thesis by (simp add: batches_Nil)
  next
    case False
    then have pos: "0 < length xs" by simp
    from False 1 have "length (batches xs) = Suc ((length xs - 50 + 49) div 50)"
      by (simp add: batches_Cons [OF False])
    also from pos have "\<dots> = (length xs + 49) div 50"
      by (rule batch_count_step)
    finally show ?thesis .
  qed
qed

lemma batch_sizes: "b \<in> set (batches xs) \<Longrightarrow> 0 < length b \<and> length b \<le> 50"
proof (induction xs rule: batches.induct)
  case (1 xs)
  show ?case
  proof (cases "xs = []")
    case True
    with 1 show ?thesis by (simp add: batches_Nil)
  next
    case False
    with 1 show ?thesis by (auto simp: batches_Cons [OF False])
  qed
qed

lemma batches_120:
  assumes "length xs = 120"
  shows "map length (batches xs) = [50, 50, 20]"
proof -
  from assms have a: "xs \<noteq> []" "drop 50 xs \<noteq> []" "drop 100 xs \<noteq> []"
    "drop 150 xs = []" by (simp_all, force)
  show ?thesis
    by (simp add: batches_Cons [OF a(1)] batches_Cons [OF a(2)] batches_Cons [OF a(3)] a(4)
        batches_Nil assms)
qed

lemma video_of_item_complete:
  assumes "complete_db db" "db i = Some item"
  shows "\<exists>v. video_of_item item = Inr v \<and> id' v = i"
proof -
  from assms obtain sn st cd where "item_snippet item = Some sn" "item_statistics item = Some st"
    "item_contentDetails item = Some cd" "item_id item = i"
    unfolding complete_db_def by fastforce
  then show ?thesis by (simp add: video_of_item_def)
qed

lemma videos_of_Nil [simp]: "videos_of [] = []"
  by (simp add: videos_of_def)

lemma videos_of_Cons:
  "videos_of (item # its)
     = (case video_of_item item of Inl err \<Rightarrow> [] | Inr v \<Rightarrow> [v]) @ videos_of its"
  by (simp add: videos_of_def)

lemma videos_of_append [simp]: "videos_of (xs @ ys) = videos_of xs @ videos_of ys"
  by (simp add: videos_of_def)

lemma push_videos_complete:
  assumes "complete_db db"
  shows "push_videos videos (List.map_filter db b)
    = Inr (videos @ videos_of (List.map_filter db b))"
proof (induction b arbitrary: videos)
  case Nil
  then show ?case by simp
next
  case (Cons i b)
  show ?case
  proof (cases "db i")
    case None
    with Cons show ?thesis by simp
  next
    case (Some item)
    from video_of_item_complete [OF assms Some] obtain v where "video_of_item item = Inr v" by blast
    with Some Cons show ?thesis by (simp add: videos_of_Cons)
  qed
qed

lemma map_filter_append: "List.map_filter f (xs @ ys) = List.map_filter f xs @ List.map_filter f ys"
  by (simp add: List.map_filter_def)

lemma slice_batch: "slice i (i + 50) xs = take 50 (drop i xs)"
  by (simp add: slice_def drop_take)

lemma details_loop_answers:
  "complete_db db \<Longrightarrow> \<forall>b\<in>set (batches (drop i videoIds)). answers e db b \<Longrightarrow>
   \<exists>tr'. details_loop e videoIds i videos tr
      = (tr @ tr', Inr (videos @ videos_of (List.map_filter db (drop i videoIds))))
    \<and> fetched tr' = map (videos_url (API_KEY e)) (batches (drop i videoIds))"
proof (induction "length videoIds - i" arbitrary: i videos tr rule: less_induct)
  case less
  show ?case
  proof (cases "i < length videoIds")
    case False
    then show ?thesis
      by (subst details_loop.simps) (simp add: batches_Nil)
  next
    case True
    let ?b = "take 50 (drop i videoIds)"
    let ?url = "videos_url (API_KEY e) ?b"
    let ?videos = "videos @ videos_of (List.map_filter db ?b)"
    let ?tr = "tr @ [Fetch ?url, ConsoleError (details_message ?videos videoIds)]"
    from True have ne: "drop i videoIds \<noteq> []" by simp
    have bs: "batches (drop i videoIds) = ?b # batches (drop (i + 50) videoIds)"
      by (simp add: batches_Cons [OF ne] add.commute)
    with less.prems(2) have "answers e db ?b" by simp
    then obtain r where r: "fetch e ?url = Inr r" "data_items r = Some (List.map_filter db ?b)"
      unfolding answers_def by blast
    then have push: "push_videos videos (items_or_empty r) = Inr ?videos"
      by (simp add: items_or_empty_def push_videos_complete [OF less.prems(1)])
    from True have "length videoIds - (i + 50) < length videoIds - i" by simp
    moreover from less.prems(2) bs
    have "\<forall>b\<in>set (batches (drop (i + 50) videoIds)). answers e db b" by simp
    ultimately obtain tr' where
      IH: "details_loop e videoIds (i + 50) ?videos ?tr
        = (?tr @ tr', Inr (?videos @ videos_of (List.map_filter db (drop (i + 50) videoIds))))"
      "fetched tr' = map (videos_url (API_KEY e)) (batches (drop (i + 50) videoIds))"
      using less.hyps [OF _ less.prems(1), of "i + 50" ?videos ?tr] by blast
    have split: "drop i videoIds = ?b @ drop (i + 50) videoIds"
      by (metis add.commute append_take_drop_id drop_drop)
    have "List.map_filter db (drop i videoIds)
      = List.map_filter db ?b @ List.map_filter db (drop (i + 50) videoIds)"
      by (subst split) (rule map_filter_append)
    with True r push IH(1)
    have "details_loop e videoIds i videos tr
      = (?tr @ tr', Inr (videos @ videos_of (List.map_filter db (drop i videoIds))))"
      by (subst details_loop.simps) (simp add: Let_def slice_batch)
    with IH(2) bs show ?thesis
      by (intro exI [of _ "[Fetch ?url, ConsoleError (details_message ?videos videoIds)] @ tr'"])
         (simp add: fetched_append)
  qed
qed

lemma ids_of_matched:
  assumes "complete_db db"
  shows "map id' (videos_of (List.map_filter db ids)) = filter (\<lambda>i. db i \<noteq> None) ids"
proof (induction ids)
  case Nil
  then show ?case by simp
next
  case (Cons i ids)
  show ?case
  proof (cases "db i")
    case None
    with Cons show ?thesis by simp
  next
    case (Some item)
    from video_of_item_complete [OF assms Some] obtain v where "video_of_item item = Inr v" "id' v = i"
      by blast
    with Some Cons show ?thesis by (simp add: videos_of_Cons)
  qed
qed

subsection \<open>The claim about batches\<close>

text \<open>
  Claim C5. \<open>getVideoDetails\<close> sends one request per batch, for the consecutive batches
  of at most 50 identifiers: \<open>\<lceil>N / 50\<rceil>\<close> of them, none empty, together the whole list,
  and of sizes 50, 50 and 20 for 120 identifiers. When the server answers each batch
  with the records of the identifiers that have one, the result is, without an error,
  one video per identifier that has a record, in the order of the identifiers: an
  identifier without a record leaves no trace. With 120 identifiers of which one has no
  record the result has 119 videos.
\<close>

theorem getVideoDetails_batches_of_50:
  assumes "\<forall>b\<in>set (batches videoIds). answers e db b" and "complete_db db"
  shows "\<exists>tr videos. getVideoDetails e videoIds = (tr, Inr videos)
     \<and> fetched tr = map (videos_url (API_KEY e)) (batches videoIds)
     \<and> concat (batches videoIds) = videoIds
     \<and> length (batches videoIds) = (length videoIds + 49) div 50
     \<and> (\<forall>b\<in>set (batches videoIds). 0 < length b \<and> length b \<le> 50)
     \<and> map id' videos = filter (\<lambda>i. db i \<noteq> None) videoIds
     \<and> length videos + length (filter (\<lambda>i. db i = None) videoIds) = length videoIds
     \<and> (length videoIds = 120 \<longrightarrow> map length (batches videoIds) = [50, 50, 20])
     \<and> (length videoIds = 120 \<and> length (filter (\<lambda>i. db i = None) videoIds) = 1
          \<longrightarrow> length videos = 119)"
proof -
  from assms(1) have "\<forall>b\<in>set (batches (drop 0 videoIds)). answers e db b" by simp
  from details_loop_answers [OF assms(2) this, of "[]" "[]"]
  obtain tr where r: "getVideoDetails e videoIds = (tr, Inr (videos_of (List.map_filter db videoIds)))"
    and f: "fetched tr = map (videos_url (API_KEY e)) (batches videoIds)"
    by (auto simp: getVideoDetails_def)
  let ?videos = "videos_of (List.map_filter db videoIds)"
  have ids: "map id' ?videos = filter (\<lambda>i. db i \<noteq> None) videoIds"
    by (rule ids_of_matched [OF assms(2)])
  then have "length ?videos = length (filter (\<lambda>i. db i \<noteq> None) videoIds)"
    by (metis length_map)
  then have count: "length ?videos + length (filter (\<lambda>i. db i = None) videoIds) = length videoIds"
    using sum_length_filter_compl [of "\<lambda>i. db i \<noteq> None" videoIds] by simp
  have sizes: "\<forall>b\<in>set (batches videoIds). 0 < length b \<and> length b \<le> 50"
    using batch_sizes by blast
  from r f ids count sizes show ?thesis
    by (intro exI [of _ tr] exI [of _ ?videos])
       (simp add: concat_batches length_batches batches_120)
qed

text \<open>An instance: the 120 identifiers of the example, one of them without a record.\<close>

lemma example_batches:
  "batches example_ids =
     [map example_id [100..<150], map example_id [150..<200], map example_id [200..<220]]"
proof -
  let ?r1 = "map example_id [150..<220]" and ?r2 = "map example_id [200..<220]"
  have n: "example_ids \<noteq> []" "?r1 \<noteq> []" "?r2 \<noteq> []"
    by (simp_all add: example_ids_def del: upt_rec_numeral)
  have t: "take 50 example_ids = map example_id [100..<150]"
    "take 50 ?r1 = map example_id [150..<200]" "take 50 ?r2 = ?r2"
    by (simp_all add: example_ids_def take_map del: upt_rec_numeral)
  have d: "drop 50 example_ids = ?r1" "drop 50 ?r1 = ?r2" "drop 50 ?r2 = []"
    by (simp_all add: example_ids_def drop_map del: upt_rec_numeral)
  have "batches example_ids = take 50 example_ids # batches (drop 50 example_ids)"
    by (rule batches_Cons [OF n(1)])
  also have "\<dots> = map example_id [100..<150] # batches ?r1"
    by (simp only: t d)
  also have "batches ?r1 = take 50 ?r1 # batches (drop 50 ?r1)"
    by (rule batches_Cons [OF n(2)])
  also have "\<dots> = map example_id [150..<200] # batches ?r2"
    by (simp only: t d)
  also have "batches ?r2 = take 50 ?r2 # batches (drop 50 ?r2)"
    by (rule batches_Cons [OF n(3)])
  also have "\<dots> = [?r2]"
    by (simp only: t d batches_Nil)
  finally show ?thesis .
qed

lemma example_id_inj: "(example_id m = example_id n) = (toString m = toString n)"
  by (simp add: example_id_def)

lemma url_neq:
  "videos_url example_key (map example_id [150..<200]) \<noteq> videos_url example_key (map example_id [100..<150])"
  "videos_url example_key (map example_id [200..<220]) \<noteq> videos_url example_key (map example_id [100..<150])"
  "videos_url example_key (map example_id [200..<220]) \<noteq> videos_url example_key (map example_id [150..<200])"
  by (simp_all add: videos_url_def example_id_def toString.simps lit_def digit_def ch_def)

lemma example_answers: "\<forall>b\<in>set (batches example_ids). answers details_env example_db b"
  unfolding example_batches
  by (simp add: answers_def details_env_def url_neq example_answer_def del: upt_rec_numeral)

lemma example_complete: "complete_db example_db"
  by (simp add: complete_db_def example_db_def example_item_def)

lemma example_unmatched: "length (filter (\<lambda>i. example_db i = None) example_ids) = 1"
  by (simp add: example_ids_def example_db_def example_id_inj toString.simps digit_def ch_def)

theorem getVideoDetails_batches_of_50_witness:
  "list_all (answers details_env example_db) (batches example_ids) \<and> complete_db example_db
   \<and> length example_ids = 120
   \<and> length (filter (\<lambda>i. example_db i = None) example_ids) = 1
   \<and> map length (batches example_ids) = [50, 50, 20]
   \<and> length (fetched (fst (getVideoDetails details_env example_ids))) = 3
   \<and> map_sum (\<lambda>err. err) length (snd (getVideoDetails details_env example_ids)) = Inr 119"
proof -
  have len: "length example_ids = 120" by (simp add: example_ids_def)
  from getVideoDetails_batches_of_50 [OF example_answers example_complete]
  obtain tr videos where r: "getVideoDetails details_env example_ids = (tr, Inr videos)"
    and f: "fetched tr = map (videos_url (API_KEY details_env)) (batches example_ids)"
    and n: "length example_ids = 120 \<and> length (filter (\<lambda>i. example_db i = None) example_ids) = 1
          \<longrightarrow> length videos = 119"
    and s: "length example_ids = 120 \<longrightarrow> map length (batches example_ids) = [50, 50, 20]"
    by (elim exE conjE) (rule that; assumption)
  from n len example_unmatched have "length videos = 119" by simp
  moreover from f have "length (fetched tr) = 3" by (simp add: example_batches)
  moreover from s len have "map length (batches example_ids) = [50, 50, 20]" by simp
  moreover from example_answers
  have "list_all (answers details_env example_db) (batches example_ids)"
    by (simp only: list_all_iff)
  ultimately show ?thesis
    using r len example_unmatched example_complete by simp
qed

section \<open>Properties of the whole run\<close>

subsection \<open>No stage writes a file\<close>

lemma files_written_append: "files_written (xs @ ys) = files_written xs @ files_written ys"
  by (induction xs rule: files_written.induct) auto

lemma getChannelId_writes: "getChannelId e h = (tr, r) \<Longrightarrow> files_written tr = []"
  by (auto simp: getChannelId_def Let_def split: sum.splits option.splits list.splits)

lemma getUploadsPlaylistId_writes: "getUploadsPlaylistId e c = (tr, r) \<Longrightarrow> files_written tr = []"
  by (auto simp: getUploadsPlaylistId_def Let_def split: sum.splits option.splits list.splits)

lemma page_loop_writes:
  assumes "page_loop e pid acc tok tr = Some y"
  shows "files_written (fst y) = files_written tr"
proof (rule page_loop.raw_induct
    [where P = "\<lambda>e pid acc tok tr y. files_written (fst y) = files_written tr", OF _ assms])
  fix f :: "env \<Rightarrow> jsstring \<Rightarrow> jsstring list \<Rightarrow> jsstring option \<Rightarrow> event list
      \<Rightarrow> (jsstring list) io option"
  fix e pid acc tok tr y
  assume IH: "\<And>e' pid' acc' tok' tr' y'. f e' pid' acc' tok' tr' = Some y' \<Longrightarrow>
      files_written (fst y') = files_written tr'"
  assume step: "(let url = playlist_url (API_KEY e) pid tok in
      case fetch e url of
        Inl err \<Rightarrow> Some (tr @ [Fetch url], Inl err)
      | Inr data \<Rightarrow>
          (case push_videoIds acc (items_or_empty data) of
             Inl err \<Rightarrow> Some (tr @ [Fetch url], Inl err)
           | Inr videoIds' \<Rightarrow>
               (let tr' = tr @ [Fetch url, ConsoleError (fetched_ids_message videoIds')] in
                if truthy (data_nextPageToken data)
                then f e pid videoIds' (data_nextPageToken data) tr'
                else Some (tr', Inr videoIds')))) = Some y"
  then show "files_written (fst y) = files_written tr"
    by (auto simp: Let_def files_written_append split: sum.splits if_splits dest!: IH)
qed

lemma getAllVideoIds_writes: "getAllVideoIds e pid = Some (tr, r) \<Longrightarrow> files_written tr = []"
  using page_loop_writes [of e pid "[]" None "[]" "(tr, r)"] by (simp add: getAllVideoIds_def)

lemma details_loop_writes:
  "details_loop e ids i videos tr = (tr', r) \<Longrightarrow> files_written tr' = files_written tr"
proof (induction e ids i videos tr rule: details_loop.induct)
  case (1 e videoIds i videos tr)
  from "1.prems" show ?case
    by (subst (asm) details_loop.simps)
       (auto simp: Let_def files_written_append split: if_splits sum.splits dest!: "1.IH" [rotated -1])
qed

lemma getVideoDetails_writes: "getVideoDetails e ids = (tr, r) \<Longrightarrow> files_written tr = []"
  using details_loop_writes [of e ids 0 "[]" "[]" tr r] by (simp add: getVideoDetails_def)

lemma heading_writes: "files_written (heading n) = []"
  by (simp add: heading_def)


subsection \<open>The table loop\<close>

text \<open>What the table loop returns when it passes: the objects as videos, their rows printed.\<close>

lemma forEach_row_Inr:
  "forEach_row i bs = (tr, Inr vs) \<Longrightarrow>
     vs = map strings_of bs
     \<and> tr = map (\<lambda>(index, video). ConsoleLog (table_row index video)) (enumerate i vs)
     \<and> list_all (\<lambda>b. title b \<noteq> None \<and> duration b \<noteq> None) bs"
proof (induction bs arbitrary: i tr vs)
  case Nil
  then show ?case by simp
next
  case (Cons b bs)
  from Cons.prems obtain t d tr' vs' where b: "title b = Some t" "duration b = Some d"
    and r: "forEach_row (i + 1) bs = (tr', Inr vs')"
    and tr: "tr = ConsoleLog (table_row i (with_strings b t d)) # tr'"
    and vs: "vs = with_strings b t d # vs'"
    by (auto split: option.splits prod.splits sum.splits)
  from Cons.IH [OF r] b tr vs show ?case
    by (simp add: strings_of_def)
qed

lemma forEach_row_total:
  "list_all (\<lambda>b. title b \<noteq> None \<and> duration b \<noteq> None) bs \<Longrightarrow>
   \<exists>tr. forEach_row i bs = (tr, Inr (map strings_of bs))"
proof (induction bs arbitrary: i)
  case Nil
  then show ?case by simp
next
  case (Cons b bs)
  then obtain t d where b: "title b = Some t" "duration b = Some d" by auto
  from Cons obtain tr where "forEach_row (i + 1) bs = (tr, Inr (map strings_of bs))" by auto
  with b show ?case by (simp add: strings_of_def)
qed

lemma forEach_row_Inl:
  "forEach_row i bs = (tr, Inl err) \<Longrightarrow>
     err = TypeError \<and> \<not> list_all (\<lambda>b. title b \<noteq> None \<and> duration b \<noteq> None) bs"
proof (induction bs arbitrary: i tr)
  case Nil
  then show ?case by simp
next
  case (Cons b bs)
  then show ?case
    by (auto split: option.splits prod.splits sum.splits)
qed

lemma report_eq:
  "report vs = heading (length vs)
     @ map (\<lambda>(index, video). ConsoleLog (table_row index video)) (enumerate 0 vs) @ saved vs"
  by (simp add: report_def heading_def saved_def)

text \<open>Reading built objects as videos commutes with sorting: it keeps the view counts.\<close>

lemma viewCount_strings_of: "viewCount (strings_of b) = viewCount b"
  by (simp add: strings_of_def with_strings_def)

lemma map_insert_sorted:
  "map strings_of (insert_sorted compareFn x ys)
     = insert_sorted compareFn (strings_of x) (map strings_of ys)"
  by (induction ys) (simp_all add: compareFn_def viewCount_strings_of)

lemma map_array_sort:
  "map strings_of (array_sort compareFn xs) = array_sort compareFn (map strings_of xs)"
  unfolding array_sort_def by (induction xs) (simp_all add: map_insert_sorted)

subsection \<open>A stage throws exactly when main rejects\<close>




text \<open>
  A run in which no stage throws: it ends with the report of the videos of the details
  stage, read as videos and sorted, and with the one file written.
\<close>

lemma main_returns:
  assumes "truthy (API_KEY e)"
    and "getChannelId e CHANNEL_HANDLE = (tr1, Inr channelId)"
    and "getUploadsPlaylistId e channelId = (tr2, Inr playlistId)"
    and "getAllVideoIds e playlistId = Some (tr3, Inr videoIds)"
    and "getVideoDetails e videoIds = (tr4, Inr videos)"
    and "list_all (\<lambda>b. title b \<noteq> None \<and> duration b \<noteq> None) videos"
  shows "\<exists>tr. main e = Some (tr @ report (array_sort compareFn (map strings_of videos)), Returned)
     \<and> files_written tr = []"
proof -
  let ?sorted = "array_sort compareFn videos"
  have "set ?sorted = set videos"
    using mset_array_sort [of compareFn videos] by (metis set_mset_mset)
  with assms(6) have "list_all (\<lambda>b. title b \<noteq> None \<and> duration b \<noteq> None) ?sorted"
    by (simp add: list_all_iff)
  from forEach_row_total [OF this, of 0] obtain tr5 where
    f: "forEach_row 0 ?sorted = (tr5, Inr (map strings_of ?sorted))" by blast
  let ?vs = "array_sort compareFn (map strings_of videos)"
  have vs: "map strings_of ?sorted = ?vs" by (rule map_array_sort)
  from forEach_row_Inr [OF f]
  have tr5: "tr5 = map (\<lambda>(index, video). ConsoleLog (table_row index video)) (enumerate 0 ?vs)"
    by (simp add: vs)
  have len: "length ?vs = length ?sorted"
    by (simp add: length_array_sort)
  let ?pre = "[ConsoleError (lit ''Fetching videos from '' @ CHANNEL_HANDLE @ lit ''...\<newline>'')]
    @ tr1 @ [ConsoleError (lit ''Channel ID: '' @ channelId)] @ tr2
    @ [ConsoleError (lit ''Uploads Playlist ID: '' @ playlistId @ lit ''\<newline>'')] @ tr3
    @ [ConsoleError (lit ''\<newline>Total videos found: '' @ toString (length videoIds)
         @ lit ''\<newline>'')] @ tr4"
  from assms(1-5) f have "main e = Some (?pre @ heading (length ?sorted) @ tr5 @ saved ?vs, Returned)"
    by (simp add: main_def Let_def vs)
  also have "heading (length ?sorted) @ tr5 @ saved ?vs = report ?vs"
    by (simp only: report_eq [of ?vs] len tr5)
  finally have "main e = Some (?pre @ report ?vs, Returned)" .
  moreover have "files_written ?pre = []"
    using assms(2-5)
    by (auto simp: files_written_append
        dest: getChannelId_writes getUploadsPlaylistId_writes getAllVideoIds_writes
          getVideoDetails_writes)
  ultimately show ?thesis by blast
qed

lemma files_written_report: "files_written (report vs) = [lit ''youtube-videos.json'']"
proof -
  have "files_written (map (\<lambda>(index, video). ConsoleLog (table_row index video)) xs) = []" for xs
    by (induction xs) auto
  then show ?thesis
    by (simp add: report_eq files_written_append heading_writes saved_def)
qed

lemma main_Returned:
  assumes "main e = Some (tr, Returned)"
  shows "\<exists>pre tr4 videoIds videos. getVideoDetails e videoIds = (tr4, Inr videos)
     \<and> tr = pre @ report (array_sort compareFn (map strings_of videos))
     \<and> files_written tr = [lit ''youtube-videos.json'']"
proof -
  from assms have key: "truthy (API_KEY e)"
    by (auto simp: main_def split: if_splits)
  from assms key obtain tr1 channelId where s1: "getChannelId e CHANNEL_HANDLE = (tr1, Inr channelId)"
    by (auto simp: main_def Let_def split: prod.splits sum.splits)
  from assms key s1 obtain tr2 playlistId where
    s2: "getUploadsPlaylistId e channelId = (tr2, Inr playlistId)"
    by (auto simp: main_def Let_def split: prod.splits sum.splits)
  from assms key s1 s2 obtain tr3 videoIds where
    s3: "getAllVideoIds e playlistId = Some (tr3, Inr videoIds)"
    by (auto simp: main_def Let_def split: prod.splits sum.splits option.splits)
  from assms key s1 s2 s3 obtain tr4 videos where
    s4: "getVideoDetails e videoIds = (tr4, Inr videos)"
    by (auto simp: main_def Let_def split: prod.splits sum.splits)
  from assms key s1 s2 s3 s4 obtain tr5 vs where
    s5: "forEach_row 0 (array_sort compareFn videos) = (tr5, Inr vs)"
    by (auto simp: main_def Let_def split: prod.splits sum.splits)
  from forEach_row_Inr [OF s5]
  have "list_all (\<lambda>b. title b \<noteq> None \<and> duration b \<noteq> None) (array_sort compareFn videos)"
    by simp
  moreover have "set (array_sort compareFn videos) = set videos"
    using mset_array_sort [of compareFn videos] by (metis set_mset_mset)
  ultimately have "list_all (\<lambda>b. title b \<noteq> None \<and> duration b \<noteq> None) videos"
    by (simp add: list_all_iff)
  from main_returns [OF key s1 s2 s3 s4 this] assms obtain pre where
    "tr = pre @ report (array_sort compareFn (map strings_of videos))" "files_written pre = []"
    by auto
  with s4 show ?thesis
    by (auto simp: files_written_append files_written_report)
qed

subsection \<open>Runs of the example servers\<close>

lemma example_key_truthy: "truthy example_key"
  by (simp add: example_key_def truthy_def lit_def)

lemma example_urls_distinct:
  "uploads_url example_key (lit ''UCchannel'') \<noteq> channel_id_url example_key CHANNEL_HANDLE"
  "playlist_url example_key (lit ''UUuploads'') None \<noteq> channel_id_url example_key CHANNEL_HANDLE"
  "playlist_url example_key (lit ''UUuploads'') None \<noteq> uploads_url example_key (lit ''UCchannel'')"
  "videos_url example_key [lit ''vid3''] \<noteq> channel_id_url example_key CHANNEL_HANDLE"
  "videos_url example_key [lit ''vid3''] \<noteq> uploads_url example_key (lit ''UCchannel'')"
  "videos_url example_key [lit ''vid3''] \<noteq> playlist_url example_key (lit ''UUuploads'') None"
  by (simp_all add: uploads_url_def channel_id_url_def playlist_url_def videos_url_def lit_def ch_def)

lemma staged_getChannelId:
  "getChannelId (staged_env a b c) CHANNEL_HANDLE
     = ([Fetch (channel_id_url example_key CHANNEL_HANDLE)], Inr (lit ''UCchannel''))"
  by (simp add: getChannelId_def staged_env_def channel_found_def)

lemma staged_getUploadsPlaylistId:
  "getUploadsPlaylistId (staged_env (Inr channel_found) b c) (lit ''UCchannel'')
     = ([Fetch (uploads_url example_key (lit ''UCchannel''))], Inr (lit ''UUuploads''))"
  "getUploadsPlaylistId (staged_env (Inr channel_bare) b c) (lit ''UCchannel'')
     = ([Fetch (uploads_url example_key (lit ''UCchannel''))], Inl TypeError)"
  by (simp_all add: getUploadsPlaylistId_def staged_env_def example_urls_distinct channel_found_def
      channel_bare_def)

lemma staged_getAllVideoIds:
  "getAllVideoIds (staged_env a (Inr page2) c) (lit ''UUuploads'')
     = Some ([Fetch (playlist_url example_key (lit ''UUuploads'') None),
              ConsoleError (fetched_ids_message [lit ''vid3''])], Inr [lit ''vid3''])"
  "getAllVideoIds (staged_env a (Inl SyntaxError) c) (lit ''UUuploads'')
     = Some ([Fetch (playlist_url example_key (lit ''UUuploads'') None)], Inl SyntaxError)"
  unfolding getAllVideoIds_def
  by (subst page_loop.simps,
      simp add: staged_env_def example_urls_distinct page2_def items_or_empty_def playlist_item_def
        truthy_def)+

lemma video_of_details_item:
  "push_videos [] (items_or_empty (details_of None)) = Inl TypeError"
  "push_videos [] (items_or_empty (details_of (Some sn)))
     = Inr [\<lparr>id' = lit ''vid3'', title = snippet_title sn,
             publishedAt = snippet_publishedAt sn, viewCount = 1500, likeCount = 0,
             commentCount = 3, duration = Some (lit ''PT1H2M10S''),
             url = lit ''https://www.youtube.com/watch?v='' @ lit ''vid3''\<rparr>]"
  by (simp_all add: items_or_empty_def details_of_def video_of_item_def count_or_0_def)

lemma staged_fetch_details:
  "fetch (staged_env a b c) (videos_url example_key [lit ''vid3'']) = c"
  by (simp add: staged_env_def example_urls_distinct)

lemma staged_API_KEY: "API_KEY (staged_env a b c) = example_key"
  by (simp add: staged_env_def)

lemma slice_one: "slice 0 50 [x] = [x]"
  by (simp add: slice_def)


lemma staged_getVideoDetails_Some:
  "\<exists>tr. getVideoDetails (staged_env a b (Inr (details_of (Some sn)))) [lit ''vid3'']
     = (tr, Inr [\<lparr>id' = lit ''vid3'', title = snippet_title sn,
             publishedAt = snippet_publishedAt sn, viewCount = 1500, likeCount = 0,
             commentCount = 3, duration = Some (lit ''PT1H2M10S''),
             url = lit ''https://www.youtube.com/watch?v='' @ lit ''vid3''\<rparr>])"
  unfolding getVideoDetails_def
  apply (subst details_loop.simps)
  apply (simp add: staged_fetch_details staged_API_KEY slice_one video_of_details_item)
  apply (subst details_loop.simps)
  apply simp
  done

lemma array_sort_one: "array_sort f [x] = [x]"
  by (simp add: array_sort_def)









lemma main_titled_env:
  "\<exists>tr. main titled_env =
     Some (tr @ report
       [\<lparr>id' = lit ''vid3'', title = lit ''Talk'', publishedAt = lit ''2023-12-01T00:00:00Z'',
         viewCount = 1500, likeCount = 0, commentCount = 3, duration = lit ''PT1H2M10S'',
         url = lit ''https://www.youtube.com/watch?v=vid3''\<rparr>], Returned)
     \<and> files_written tr = []"
proof -
  let ?sn = "untitled\<lparr>snippet_title := Some (lit ''Talk'')\<rparr>"
  obtain tr where d: "getVideoDetails (staged_env (Inr channel_found) (Inr page2)
        (Inr (details_of (Some ?sn)))) [lit ''vid3'']
     = (tr, Inr [\<lparr>id' = lit ''vid3'', title = snippet_title ?sn,
             publishedAt = snippet_publishedAt ?sn, viewCount = 1500, likeCount = 0,
             commentCount = 3, duration = Some (lit ''PT1H2M10S''),
             url = lit ''https://www.youtube.com/watch?v='' @ lit ''vid3''\<rparr>])"
    using staged_getVideoDetails_Some by blast
  have k: "truthy (API_KEY (staged_env (Inr channel_found) (Inr page2)
      (Inr (details_of (Some ?sn)))))"
    by (simp add: staged_API_KEY example_key_truthy)
  from main_returns [OF k staged_getChannelId staged_getUploadsPlaylistId(1)
      staged_getAllVideoIds(1) d]
  show ?thesis
    by (simp add: titled_env_def array_sort_one strings_of_def with_strings_def untitled_def lit_def)
qed

subsection \<open>The claim about failures\<close>




end
